theory Spec2Isabelle
  imports Main "HOL-Library.Sublist" "HOL-Library.Monad_Syntax"
begin

section \<open>Text primitives shared by both scripts\<close>

text \<open>
  Both scripts work on Python \<open>str\<close> values.  A text is a \<open>string\<close>; each \<open>char\<close>
  stands for one code point below 256.  All characters the scripts test for
  (braces, quotes, the marker comments, the field names) are ASCII.
\<close>

text \<open>Python's \<open>sub in s\<close> on strings: \<open>sub\<close> occurs as a contiguous slice of \<open>s\<close>.\<close>

fun substr_in :: "string \<Rightarrow> string \<Rightarrow> bool" where
  "substr_in sub [] = (sub = [])"
| "substr_in sub (c # cs) = (prefix sub (c # cs) \<or> substr_in sub cs)"

text \<open>
  The class \<open>\s\<close> of Python's \<open>re\<close> on \<open>str\<close> patterns (Unicode whitespace),
  restricted to code points below 256: TAB, LF, VT, FF, CR, the separators
  0x1C..0x1F, space, NEL (0x85) and the no-break space (0xA0).
\<close>

definition is_space :: "char \<Rightarrow> bool" where
  "is_space c \<longleftrightarrow> c \<in> set [CHR 0x09, CHR 0x0A, CHR 0x0B, CHR 0x0C, CHR 0x0D,
     CHR 0x1C, CHR 0x1D, CHR 0x1E, CHR 0x1F, CHR 0x20, CHR 0x85, CHR 0xA0]"

text \<open>
  \<open>re.match(r'\s*LIT', line)\<close> for a literal \<open>LIT\<close> that starts with a non-space
  character: the match is anchored at the start of the line only, \<open>\s*\<close> takes
  the whole leading whitespace (giving some of it back cannot help, since
  \<open>LIT\<close> does not start with whitespace), and nothing is required after \<open>LIT\<close>.
\<close>

definition re_match_ws :: "string \<Rightarrow> string \<Rightarrow> bool" where
  "re_match_ws lit line = prefix lit (dropWhile is_space line)"

text \<open>
  Python's \<open>s.replace(old, new)\<close> for a non-empty \<open>old\<close>: every occurrence, left to
  right, without overlap.
\<close>

fun str_replace :: "string \<Rightarrow> string \<Rightarrow> string \<Rightarrow> string" where
  "str_replace old new [] = []"
| "str_replace old new (c # cs) =
     (if prefix old (c # cs) then new @ str_replace old new (drop (length old - 1) cs)
      else c # str_replace old new cs)"

section \<open>Function-Stripper (\<open>website-audit-tool/safe-refactor.py\<close>)\<close>

text \<open>
  The file is read with \<open>readlines\<close>: an ordered sequence of lines.  The audit list
  \<open>removed_lines\<close> holds pairs of a 1-based line number and a description; the
  description of a removed function is the f-string
  \<open>'{name} function ({n} lines)'\<close>, kept here as its two holes.
\<close>

datatype description = Import_desc string | Function_desc string int

type_synonym removed_record = "nat \<times> description"

subsection \<open>Step 1: import lines\<close>

fun import_loop ::
  "nat \<Rightarrow> string list \<Rightarrow> removed_record list \<Rightarrow> string list \<times> removed_record list" where
  "import_loop i [] removed_lines = ([], removed_lines)"
| "import_loop i (line # lines) removed_lines =
     (let line_num = i + 1 in
      if substr_in ''createDraft'' line \<and> substr_in ''drafts-gmail'' line
      then import_loop (i + 1) lines (removed_lines @ [(line_num, Import_desc ''createDraft import'')])
      else if substr_in ''sanitizeHumanizedEmail'' line \<and> substr_in ''email-sanitizer'' line
      then import_loop (i + 1) lines (removed_lines @ [(line_num, Import_desc ''email-sanitizer import'')])
      else (case import_loop (i + 1) lines removed_lines of
              (new_lines, removed_lines') \<Rightarrow> (line # new_lines, removed_lines')))"

definition import_stage ::
  "string list \<Rightarrow> removed_record list \<Rightarrow> string list \<times> removed_record list" where
  "import_stage lines removed_lines = import_loop 0 lines removed_lines"

subsection \<open>Steps 2 to 6: removal of a named function\<close>

text \<open>
  The inner loop \<open>for char in lines[j]\<close>.  The result is \<open>(True, _, _)\<close> when the
  test \<open>started and brace_count == 0\<close> succeeded after some character (the
  \<open>break\<close>), and \<open>(False, brace_count, started)\<close> with the values at the end of
  the line otherwise.
\<close>

fun scan_chars :: "string \<Rightarrow> int \<Rightarrow> bool \<Rightarrow> bool \<times> int \<times> bool" where
  "scan_chars [] brace_count started = (False, brace_count, started)"
| "scan_chars (char # chars) brace_count started =
     (let brace_count' = (if char = CHR ''{'' then brace_count + 1
                          else if char = CHR ''}'' then brace_count - 1
                          else brace_count);
          started' = (if char = CHR ''{'' then True else started)
      in if started' \<and> brace_count' = 0 then (True, brace_count', started')
         else scan_chars chars brace_count' started')"

text \<open>
  The loop \<open>for j in range(i, len(lines))\<close>, run on the lines from \<open>j\<close> on.  On
  success \<open>skip_until\<close> becomes \<open>j + 1\<close> and both loops are left; the result is
  \<open>Some j\<close>.  The test \<open>if skip_until > 0: break\<close> after the inner loop reads the
  variable \<open>skip_until\<close> of the whole stage, so a value left by an earlier
  removal in the same stage also ends the scan, after the first scanned line.
\<close>

fun find_end :: "string list \<Rightarrow> nat \<Rightarrow> int \<Rightarrow> bool \<Rightarrow> int \<Rightarrow> nat option" where
  "find_end [] j brace_count started skip_until = None"
| "find_end (l # ls) j brace_count started skip_until =
     (case scan_chars l brace_count started of
        (True, _, _) \<Rightarrow> Some j
      | (False, brace_count', started') \<Rightarrow>
          if skip_until > 0 then None
          else find_end ls (j + 1) brace_count' started' skip_until)"

text \<open>
  The loop \<open>while start_line > 0 and is_comment(lines[start_line-1])\<close>.  Step 2
  tests \<open>'/**' in l or '*' in l\<close>; steps 3 to 6 test
  \<open>'/**' in l or '* ' in l or '*/' in l\<close>.
\<close>

fun walk_back :: "(string \<Rightarrow> bool) \<Rightarrow> string list \<Rightarrow> nat \<Rightarrow> nat" where
  "walk_back is_comment lines 0 = 0"
| "walk_back is_comment lines (Suc k) =
     (if is_comment (lines ! k) then walk_back is_comment lines k else Suc k)"

definition comment_step2 :: "string \<Rightarrow> bool" where
  "comment_step2 l \<longleftrightarrow> substr_in ''/**'' l \<or> substr_in ''*'' l"

definition comment_step3 :: "string \<Rightarrow> bool" where
  "comment_step3 l \<longleftrightarrow> substr_in ''/**'' l \<or> substr_in ''* '' l \<or> substr_in ''*/'' l"

record stage_state =
  skip_until :: int
  new_lines :: "string list"
  removed_lines :: "removed_record list"

text \<open>
  One iteration of \<open>for i, line in enumerate(lines)\<close>.  A line that contains the
  target is never appended (the \<open>continue\<close> that closes the branch), whether or
  not the scan found an end.  The lines before it were appended in earlier
  iterations; \<open>start_line\<close> only enters the audit record.
\<close>

definition stage_step ::
  "string \<Rightarrow> (string \<Rightarrow> bool) \<Rightarrow> string \<Rightarrow> string list \<Rightarrow> nat \<times> string \<Rightarrow> stage_state \<Rightarrow> stage_state" where
  "stage_step target is_comment name lines = (\<lambda>(i, line) s.
     if skip_until s > 0 \<and> int i < skip_until s then s
     else if substr_in target line then
       (case find_end (drop i lines) i 0 False (skip_until s) of
          Some j \<Rightarrow>
            (let start_line = walk_back is_comment lines i in
             s\<lparr>skip_until := int j + 1,
               removed_lines := removed_lines s @
                 [(start_line + 1, Function_desc name (int j - int start_line + 1))]\<rparr>)
        | None \<Rightarrow> s)
     else s\<lparr>new_lines := new_lines s @ [line]\<rparr>)"

definition function_stage ::
  "string \<Rightarrow> (string \<Rightarrow> bool) \<Rightarrow> string \<Rightarrow> string list \<Rightarrow> removed_record list \<Rightarrow> stage_state" where
  "function_stage target is_comment name lines removed =
     fold (stage_step target is_comment name lines) (enumerate 0 lines)
       \<lparr>skip_until = - 1, new_lines = [], removed_lines = removed\<rparr>"

definition step2 :: "string list \<Rightarrow> removed_record list \<Rightarrow> stage_state" where
  "step2 = function_stage ''function extractContactInfo'' comment_step2 ''extractContactInfo''"

definition step3 :: "string list \<Rightarrow> removed_record list \<Rightarrow> stage_state" where
  "step3 = function_stage ''async function humanizeEmailWithAI'' comment_step3 ''humanizeEmailWithAI''"

definition step4to6 :: "string \<Rightarrow> string list \<Rightarrow> removed_record list \<Rightarrow> stage_state" where
  "step4to6 func_name = function_stage (''function '' @ func_name) comment_step3 func_name"

subsection \<open>Step 7: targeted rename\<close>

definition rename_line :: "string \<Rightarrow> string" where
  "rename_line line =
     (if substr_in ''const leadGrade = result.emailQA'' line then ''''
      else if substr_in ''`lead-${leadGrade}`'' line
      then str_replace ''`lead-${leadGrade}`'' ''`grade-${websiteGrade}`'' line
      else line)"

text \<open>
  \<open>lines[i] = ...\<close> inside \<open>for i, line in enumerate(lines)\<close> overwrites the
  element just visited; the list keeps its length.
\<close>

fun rename_stage :: "string list \<Rightarrow> string list" where
  "rename_stage [] = []"
| "rename_stage (line # lines) = rename_line line # rename_stage lines"

subsection \<open>Step 8: regions between marker comments\<close>

definition start_marker :: "string \<Rightarrow> bool" where
  "start_marker line \<longleftrightarrow> substr_in ''// 3. Save email content'' line
     \<or> substr_in ''// 3b. Save critique reasoning'' line
     \<or> substr_in ''// 3c. Save QA review'' line"

definition end_marker :: "string \<Rightarrow> bool" where
  "end_marker line \<longleftrightarrow> substr_in ''// 4. Save client info'' line
     \<or> substr_in ''// 3. Save client info'' line"

fun region_loop :: "bool \<Rightarrow> string list \<Rightarrow> string list" where
  "region_loop skip_mode [] = []"
| "region_loop skip_mode (line # lines) =
     (let skip_mode' = (if start_marker line then True else skip_mode) in
      if end_marker line then line # region_loop False lines
      else if \<not> skip_mode' then line # region_loop skip_mode' lines
      else region_loop skip_mode' lines)"

definition region_stage :: "string list \<Rightarrow> string list" where
  "region_stage lines = region_loop False lines"

subsection \<open>Step 9: the email workflow\<close>

fun workflow_loop :: "bool \<Rightarrow> string list \<Rightarrow> string list" where
  "workflow_loop skip_mode [] = []"
| "workflow_loop skip_mode (line # lines) =
     (let skip_mode1 = (if substr_in ''Step 10: Generate email'' line then True else skip_mode);
          skip_mode2 = (if skip_mode1 \<and> (substr_in ''// Add result'' line
                              \<or> substr_in ''const result = {'' line)
                        then False else skip_mode1)
      in if \<not> skip_mode2 then line # workflow_loop skip_mode2 lines
         else workflow_loop skip_mode2 lines)"

definition workflow_stage :: "string list \<Rightarrow> string list" where
  "workflow_stage lines = workflow_loop False lines"

subsection \<open>Step 10: single field lines\<close>

text \<open>The chain of tests of step 10; a line for which one of them holds is skipped.\<close>

definition field_shape :: "string \<Rightarrow> bool" where
  "field_shape line \<longleftrightarrow>
     re_match_ws ''email: email,'' line
   \<or> re_match_ws ''emailQA:'' line
   \<or> re_match_ws ''draft:'' line
   \<or> (substr_in ''critiqueReasoning:'' line \<and> substr_in ''result.'' line)
   \<or> substr_in ''leadGrade: leadGrade,'' line
   \<or> substr_in ''extractContactInfo('' line
   \<or> re_match_ws ''emailWriting:'' line
   \<or> (re_match_ws ''critiqueReasoning:'' line \<and> substr_in ''true'' line)
   \<or> (re_match_ws ''qaReview:'' line \<and> substr_in ''true'' line)
   \<or> re_match_ws ''cheapModel:'' line"

fun field_stage :: "string list \<Rightarrow> string list" where
  "field_stage [] = []"
| "field_stage (line # lines) =
     (if field_shape line then field_stage lines else line # field_stage lines)"

subsection \<open>The whole run\<close>

text \<open>
  \<open>f.writelines(lines)\<close> writes the elements one after the other, with nothing
  between them.  The summary then prints \<open>len(lines)\<close> before and after, and
  the share of removed lines, \<open>removed/original_count*100\<close>.  For an empty
  file this division raises \<open>ZeroDivisionError\<close>: the file has been written
  and the two counts printed, and the run aborts before the list of removed
  components is printed.  Otherwise the first ten entries of the audit list
  are printed and, when there are more, the number of the remaining ones.
  The percentage is a float and is not kept.
\<close>

definition writelines :: "string list \<Rightarrow> string" where
  "writelines lines = concat lines"

datatype py_error = ZeroDivisionError

record run_result =
  written :: string
  original_count :: nat
  final_count :: nat
  audit :: "py_error + removed_record list \<times> nat"

definition steps1to6 :: "string list \<Rightarrow> string list \<times> removed_record list" where
  "steps1to6 lines =
     (case import_stage lines [] of (l1, r1) \<Rightarrow>
      let s2 = step2 l1 r1;
          s3 = step3 (new_lines s2) (removed_lines s2);
          s4 = step4to6 ''generateCritiqueReasoning'' (new_lines s3) (removed_lines s3);
          s5 = step4to6 ''qaReviewEmail'' (new_lines s4) (removed_lines s4);
          s6 = step4to6 ''generateEmail'' (new_lines s5) (removed_lines s5)
      in (new_lines s6, removed_lines s6))"

definition steps7to10 :: "string list \<Rightarrow> string list" where
  "steps7to10 lines = field_stage (workflow_stage (region_stage (rename_stage lines)))"

definition main :: "string list \<Rightarrow> run_result" where
  "main lines =
     (case steps1to6 lines of (l6, removed) \<Rightarrow>
      let final = steps7to10 l6 in
      \<lparr>written = writelines final, original_count = length lines,
       final_count = length final,
       audit = (if length lines = 0 then Inl ZeroDivisionError
                else Inr (take 10 removed, length removed - 10))\<rparr>)"

section \<open>Field-Injector (\<open>analysis-engine/add-source-fields.py\<close>)\<close>

subsection \<open>The two regular expressions\<close>

text \<open>
  Each piece of a pattern is a function from the text at the current position
  to the text that remains after the piece, or \<open>None\<close> when the piece does not
  match there.
\<close>

definition match_lit :: "string \<Rightarrow> string \<Rightarrow> string option" where
  "match_lit l s = (if prefix l s then Some (drop (length l) s) else None)"

definition one_of :: "(char \<Rightarrow> bool) \<Rightarrow> string \<Rightarrow> string option" where
  "one_of P s = (case s of [] \<Rightarrow> None | c # cs \<Rightarrow> if P c then Some cs else None)"

text \<open>
  \<open>\s*\<close> and \<open>[\s\n]*\<close> (the same class, as \<open>\n\<close> is whitespace): greedy.  In both
  patterns the next piece starts with a character that is not whitespace, so
  the only way to match is to take all the whitespace.
\<close>

definition spaces :: "string \<Rightarrow> string" where
  "spaces s = dropWhile is_space s"

text \<open>The class \<open>['\"]\<close>.\<close>

definition is_quote :: "char \<Rightarrow> bool" where
  "is_quote c \<longleftrightarrow> c = CHR 0x27 \<or> c = CHR 0x22"

text \<open>
  \<open>(?:critical|high|medium|low)\<close> and \<open>(?:recommendation|technical_details)\<close>: the
  alternatives are tried in order; they start with different letters, so at
  most one of them matches and no second try can succeed.
\<close>

definition level :: "string \<Rightarrow> string option" where
  "level s = (case match_lit ''critical'' s of Some r \<Rightarrow> Some r | None \<Rightarrow>
              (case match_lit ''high'' s of Some r \<Rightarrow> Some r | None \<Rightarrow>
              (case match_lit ''medium'' s of Some r \<Rightarrow> Some r | None \<Rightarrow> match_lit ''low'' s)))"

definition field_name :: "string \<Rightarrow> string option" where
  "field_name s = (case match_lit ''recommendation'' s of Some r \<Rightarrow> Some r | None \<Rightarrow>
                   match_lit ''technical_details'' s)"

text \<open>The second group of both patterns, \<open>([\s\n]*})\<close>.\<close>

definition match_close :: "string \<Rightarrow> string option" where
  "match_close s = one_of (\<lambda>c. c = CHR ''}'') (spaces s)"

text \<open>
  \<open>.*?D\<close> followed by the second group, for a closing delimiter class \<open>D\<close>:
  lazy, so the closing delimiter and the second group are tried first at
  every position, and only when they fail does \<open>.\<close> take one more character,
  which must not be a newline.  The result is the text after the first group
  and the text after the second.
\<close>

fun lazy_until :: "(char \<Rightarrow> bool) \<Rightarrow> string \<Rightarrow> (string \<times> string) option" where
  "lazy_until D [] = None"
| "lazy_until D (c # cs) =
     (case (if D c then match_close cs else None) of
        Some rest \<Rightarrow> Some (cs, rest)
      | None \<Rightarrow> if c = CHR 0x0A then None else lazy_until D cs)"

text \<open>
  \<open>pattern = (priority:\s*['\"](?:critical|high|medium|low)['\"])([\s\n]*})\<close> at the
  start of \<open>s\<close>: the text after group 1 and the text after the match.
\<close>

definition match_A :: "string \<Rightarrow> (string \<times> string) option" where
  "match_A s = do {
     s1 \<leftarrow> match_lit ''priority:'' s;
     s2 \<leftarrow> one_of is_quote (spaces s1);
     s3 \<leftarrow> level s2;
     r1 \<leftarrow> one_of is_quote s3;
     rest \<leftarrow> match_close r1;
     Some (r1, rest) }"

text \<open>
  \<open>pattern2 = ((?:recommendation|technical_details):\s*(?:['\"].*?['\"]|`.*?`))([\s\n]*})\<close>
  at the start of \<open>s\<close>.  The two alternatives for the value start with
  different characters.
\<close>

definition match_B :: "string \<Rightarrow> (string \<times> string) option" where
  "match_B s = do {
     s1 \<leftarrow> field_name s;
     s2 \<leftarrow> match_lit '':'' s1;
     (case spaces s2 of
        [] \<Rightarrow> None
      | c # cs \<Rightarrow>
          if is_quote c then lazy_until is_quote cs
          else if c = CHR ''`'' then lazy_until (\<lambda>d. d = CHR ''`'') cs
          else None) }"

datatype pass = Pass_A | Pass_B

text \<open>The match at the start of \<open>s\<close>, as the lengths of its two groups.\<close>

definition match_at :: "pass \<Rightarrow> string \<Rightarrow> (nat \<times> nat) option" where
  "match_at p s =
     (case (case p of Pass_A \<Rightarrow> match_A s | Pass_B \<Rightarrow> match_B s) of
        None \<Rightarrow> None
      | Some (r1, rest) \<Rightarrow> Some (length s - length r1, length r1 - length rest))"

text \<open>
  \<open>re.sub(pattern, replacement, s)\<close> with the replacement template
  \<open>\1 ins \2\<close>: the text is scanned from left to right; where the pattern
  matches, the match is replaced and the scan goes on behind it; elsewhere one
  character is copied.  Every match holds at least the field name and the
  closing brace, so it is never empty.
\<close>

fun re_sub :: "pass \<Rightarrow> string \<Rightarrow> string \<Rightarrow> string" where
  "re_sub p ins [] = []"
| "re_sub p ins (c # cs) =
     (case match_at p (c # cs) of
        Some (n1, n2) \<Rightarrow>
          take n1 (c # cs) @ ins @ take n2 (drop n1 (c # cs))
            @ re_sub p ins (drop (n1 + n2 - 1) cs)
      | None \<Rightarrow> c # re_sub p ins cs)"

subsection \<open>The procedure\<close>

definition quoted :: "string \<Rightarrow> string" where
  "quoted s = CHR 0x27 # s @ [CHR 0x27]"

text \<open>The marker \<open>f"source: '{source}'"\<close> of the guard.\<close>

definition marker :: "string \<Rightarrow> string" where
  "marker source = ''source: '' @ quoted source"

text \<open>
  The replacement template is
  \<open>r"\1,\n      source: '" + source + r"',\n      source_type: '" + source_type + r"'\2"\<close>.
  The names in \<open>analyzers\<close> hold letters and hyphens only, so its escapes are
  \<open>\1\<close>, \<open>\n\<close> (a newline) and \<open>\2\<close>; \<open>insertion\<close> is the text between the two
  groups.
\<close>

definition insertion :: "string \<Rightarrow> string \<Rightarrow> string" where
  "insertion source source_type =
     '',\<newline>      source: '' @ quoted source @ '',\<newline>      source_type: '' @ quoted source_type"

definition pass_A :: "string \<Rightarrow> string \<Rightarrow> string \<Rightarrow> string" where
  "pass_A source source_type content = re_sub Pass_A (insertion source source_type) content"

definition pass_B :: "string \<Rightarrow> string \<Rightarrow> string \<Rightarrow> string" where
  "pass_B source source_type content = re_sub Pass_B (insertion source source_type) content"

definition analyzers :: "(string \<times> string \<times> string) list" where
  "analyzers =
    [(''analyzers/seo-analyzer.js'', ''seo-analyzer'', ''technical''),
     (''analyzers/content-analyzer.js'', ''content-analyzer'', ''technical''),
     (''analyzers/accessibility-analyzer.js'', ''accessibility-analyzer'', ''accessibility''),
     (''analyzers/social-analyzer.js'', ''social-analyzer'', ''social''),
     (''analyzers/desktop-visual-analyzer.js'', ''desktop-visual-analyzer'', ''visual''),
     (''analyzers/mobile-visual-analyzer.js'', ''mobile-visual-analyzer'', ''visual''),
     (''analyzers/unified-visual-analyzer.js'', ''unified-visual-analyzer'', ''visual''),
     (''analyzers/unified-technical-analyzer.js'', ''unified-technical-analyzer'', ''technical'')]"

text \<open>
  The file system is a map from paths to contents; the printed line of each
  iteration is a \<open>report\<close>.  A file that exists is taken to be readable and
  writable: the \<open>except\<close> branch, which prints the error and goes on with the
  next file, is not part of the model.
\<close>

datatype report = Not_found | Already_present | Updated | No_changes

type_synonym files = "string \<rightharpoonup> string"

definition process_file :: "files \<Rightarrow> string \<times> string \<times> string \<Rightarrow> files \<times> report" where
  "process_file fs = (\<lambda>(filename, source, source_type).
     (case fs filename of
        None \<Rightarrow> (fs, Not_found)
      | Some content \<Rightarrow>
          if substr_in (marker source) content then (fs, Already_present)
          else
            (let updated_content = pass_A source source_type content;
                 updated_content = pass_B source source_type updated_content
             in if updated_content \<noteq> content
                then (fs(filename \<mapsto> updated_content), Updated)
                else (fs, No_changes))))"

fun inject :: "(string \<times> string \<times> string) list \<Rightarrow> files \<Rightarrow> files \<times> report list" where
  "inject [] fs = (fs, [])"
| "inject (spec # specs) fs =
     (case process_file fs spec of (fs', r) \<Rightarrow>
      (case inject specs fs' of (fs'', rs) \<Rightarrow> (fs'', r # rs)))"

section \<open>Notions used to state the properties\<close>

text \<open>Python's \<open>s.strip()\<close>: leading and trailing whitespace removed.\<close>

definition strip_space :: "string \<Rightarrow> string" where
  "strip_space s = rev (dropWhile is_space (rev (dropWhile is_space s)))"

text \<open>
  The value of \<open>skip_mode\<close> when the loop of step 8, started with the given
  value, has read the given lines; and the same for the loop of step 9.
\<close>

fun region_skip_after :: "bool \<Rightarrow> string list \<Rightarrow> bool" where
  "region_skip_after skip_mode [] = skip_mode"
| "region_skip_after skip_mode (line # lines) =
     (let skip_mode' = (if start_marker line then True else skip_mode) in
      if end_marker line then region_skip_after False lines
      else region_skip_after skip_mode' lines)"

fun workflow_skip_after :: "bool \<Rightarrow> string list \<Rightarrow> bool" where
  "workflow_skip_after skip_mode [] = skip_mode"
| "workflow_skip_after skip_mode (line # lines) =
     (let skip_mode1 = (if substr_in ''Step 10: Generate email'' line then True else skip_mode);
          skip_mode2 = (if skip_mode1 \<and> (substr_in ''// Add result'' line
                              \<or> substr_in ''const result = {'' line)
                        then False else skip_mode1)
      in workflow_skip_after skip_mode2 lines)"

text \<open>
  The running delimiter balance after a piece of text: \<open>{\<close> counts +1 and \<open>}\<close>
  counts -1.
\<close>

definition balance :: "string \<Rightarrow> int" where
  "balance p = int (count_list p (CHR ''{'')) - int (count_list p (CHR ''}''))"

text \<open>
  The characters read by a scan that starts at the beginning of line \<open>i\<close>, up
  to and including character \<open>n\<close> of line \<open>j\<close>.
\<close>

definition scanned :: "string list \<Rightarrow> nat \<Rightarrow> nat \<Rightarrow> nat \<Rightarrow> string" where
  "scanned lines i j n = concat (take (j - i) (drop i lines)) @ take n (lines ! j)"

text \<open>
  After some character of line \<open>j\<close> the balance is zero and a \<open>{\<close> has been
  read.
\<close>

definition closes_on :: "string list \<Rightarrow> nat \<Rightarrow> nat \<Rightarrow> bool" where
  "closes_on lines i j \<longleftrightarrow>
     (\<exists>n\<in>{1..length (lines ! j)}.
        CHR ''{'' \<in> set (scanned lines i j n) \<and> balance (scanned lines i j n) = 0)"

text \<open>
  After some character of line \<open>j\<close> the balance is zero and it has been
  positive before.
\<close>

definition closes_after_positive :: "string list \<Rightarrow> nat \<Rightarrow> nat \<Rightarrow> bool" where
  "closes_after_positive lines i j \<longleftrightarrow>
     (\<exists>n\<in>{1..length (lines ! j)}.
        balance (scanned lines i j n) = 0
        \<and> (\<exists>m<length (scanned lines i j n). 0 < balance (take m (scanned lines i j n))))"

text \<open>
  The same for a scan that is under way: \<open>ls\<close> are the lines still to read,
  \<open>bc\<close> and \<open>st\<close> the balance and the \<open>started\<close> flag reached so far, and \<open>k\<close>
  counts lines from the head of \<open>ls\<close>.
\<close>

definition closes_within :: "string list \<Rightarrow> int \<Rightarrow> bool \<Rightarrow> nat \<Rightarrow> bool" where
  "closes_within ls bc st k \<longleftrightarrow>
     (\<exists>n\<in>{1..length (ls ! k)}.
        (st \<or> CHR ''{'' \<in> set (concat (take k ls) @ take n (ls ! k)))
        \<and> bc + balance (concat (take k ls) @ take n (ls ! k)) = 0)"

text \<open>\<open>j\<close> is the first line at or after \<open>i\<close> with the property \<open>P\<close>.\<close>

definition first_line_from :: "(nat \<Rightarrow> bool) \<Rightarrow> nat \<Rightarrow> nat \<Rightarrow> bool" where
  "first_line_from P i j \<longleftrightarrow> i \<le> j \<and> P j \<and> (\<forall>k\<in>{i..<j}. \<not> P k)"

section \<open>Properties of the text primitives\<close>

lemma substr_in_iff: "substr_in sub s \<longleftrightarrow> (\<exists>a b. s = a @ sub @ b)"
proof (induction s)
  case Nil
  then show ?case by auto
next
  case (Cons c cs)
  show ?case
  proof
    assume "substr_in sub (c # cs)"
    then consider "prefix sub (c # cs)" | "substr_in sub cs" by auto
    then show "\<exists>a b. c # cs = a @ sub @ b"
    proof cases
      case 1
      then obtain b where "c # cs = sub @ b" by (auto simp: prefix_def)
      then have "c # cs = [] @ sub @ b" by simp
      then show ?thesis by blast
    next
      case 2
      with Cons.IH obtain a b where "cs = a @ sub @ b" by blast
      then have "c # cs = (c # a) @ sub @ b" by simp
      then show ?thesis by blast
    qed
  next
    assume "\<exists>a b. c # cs = a @ sub @ b"
    then obtain a b where ab: "c # cs = a @ sub @ b" by blast
    show "substr_in sub (c # cs)"
    proof (cases a)
      case Nil
      with ab have "prefix sub (c # cs)" by (simp add: prefix_def)
      then show ?thesis by simp
    next
      case (Cons a0 as)
      with ab have "cs = as @ sub @ b" by simp
      with Cons.IH have "substr_in sub cs" by blast
      then show ?thesis by simp
    qed
  qed
qed

lemma re_match_ws_iff:
  assumes "lit \<noteq> []" "\<not> is_space (hd lit)"
  shows "re_match_ws lit line \<longleftrightarrow>
    (\<exists>ws rest. line = ws @ lit @ rest \<and> (\<forall>c\<in>set ws. is_space c))"
proof
  assume "re_match_ws lit line"
  then obtain rest where "dropWhile is_space line = lit @ rest"
    by (auto simp: re_match_ws_def prefix_def)
  then have "line = takeWhile is_space line @ lit @ rest"
    by (metis takeWhile_dropWhile_id)
  moreover have "\<forall>c\<in>set (takeWhile is_space line). is_space c"
    by (auto dest: set_takeWhileD)
  ultimately show "\<exists>ws rest. line = ws @ lit @ rest \<and> (\<forall>c\<in>set ws. is_space c)"
    by blast
next
  assume "\<exists>ws rest. line = ws @ lit @ rest \<and> (\<forall>c\<in>set ws. is_space c)"
  then obtain ws rest where l: "line = ws @ lit @ rest" and ws: "\<forall>c\<in>set ws. is_space c"
    by blast
  from assms obtain c cs where lit: "lit = c # cs" and c: "\<not> is_space c"
    by (cases lit) auto
  have "dropWhile is_space line = lit @ rest"
    unfolding l lit using ws c by (simp add: dropWhile_append)
  then show "re_match_ws lit line" by (simp add: re_match_ws_def)
qed

section \<open>Properties of Function-Stripper, steps 2 to 6\<close>

subsection \<open>The brace scan\<close>

lemma balance_Nil: "balance [] = 0"
  by (simp add: balance_def)

lemma balance_Cons:
  "balance (c # cs) = (if c = CHR ''{'' then 1 else if c = CHR ''}'' then - 1 else 0) + balance cs"
  by (simp add: balance_def)

lemma balance_append: "balance (a @ b) = balance a + balance b"
  by (induction a) (simp_all add: balance_Nil balance_Cons)

lemma ex_Suc_range:
  "(\<exists>n\<in>{1..Suc m}. P n) \<longleftrightarrow> P 1 \<or> (\<exists>n\<in>{1..m}. P (Suc n))"
proof
  assume "\<exists>n\<in>{1..Suc m}. P n"
  then obtain n where n: "1 \<le> n" "n \<le> Suc m" "P n" by auto
  show "P 1 \<or> (\<exists>n\<in>{1..m}. P (Suc n))"
  proof (cases "n = 1")
    case True
    with n show ?thesis by simp
  next
    case False
    with n obtain n' where "n = Suc n'" "1 \<le> n'" "n' \<le> m" by (cases n) auto
    with n show ?thesis by auto
  qed
next
  assume "P 1 \<or> (\<exists>n\<in>{1..m}. P (Suc n))"
  then show "\<exists>n\<in>{1..Suc m}. P n" by (auto intro: bexI [where x = 1])
qed

lemma balance_Cons1: "balance (c # cs) = balance [c] + balance cs"
  by (simp add: balance_def)

lemma scan_chars_Cons:
  "scan_chars (c # cs) bc st =
     (if (st \<or> c = CHR ''{'') \<and> bc + balance [c] = 0
      then (True, bc + balance [c], st \<or> c = CHR ''{'')
      else scan_chars cs (bc + balance [c]) (st \<or> c = CHR ''{''))"
  by (auto simp: Let_def balance_def)

lemma scan_chars_found:
  "fst (scan_chars l bc st) \<longleftrightarrow>
     (\<exists>n\<in>{1..length l}. (st \<or> CHR ''{'' \<in> set (take n l)) \<and> bc + balance (take n l) = 0)"
proof (induction l arbitrary: bc st)
  case Nil
  then show ?case by simp
next
  case (Cons c cs)
  have now: "(st \<or> CHR ''{'' \<in> set (take 1 (c # cs))) \<and> bc + balance (take 1 (c # cs)) = 0
      \<longleftrightarrow> (st \<or> c = CHR ''{'') \<and> bc + balance [c] = 0"
    by auto
  have later: "(st \<or> CHR ''{'' \<in> set (take (Suc n) (c # cs))) \<and> bc + balance (take (Suc n) (c # cs)) = 0
      \<longleftrightarrow> ((st \<or> c = CHR ''{'') \<or> CHR ''{'' \<in> set (take n cs))
           \<and> (bc + balance [c]) + balance (take n cs) = 0" for n
    using balance_Cons1 [of c "take n cs"] by auto
  show ?case
    unfolding length_Cons ex_Suc_range now later scan_chars_Cons
    using Cons.IH [of "bc + balance [c]" "st \<or> c = CHR ''{''"]
    by (simp del: scan_chars.simps)
qed

lemma scan_chars_not_found:
  "\<not> fst (scan_chars l bc st) \<Longrightarrow>
     scan_chars l bc st = (False, bc + balance l, st \<or> CHR ''{'' \<in> set l)"
proof (induction l arbitrary: bc st)
  case Nil
  then show ?case by (simp add: balance_Nil)
next
  case (Cons c cs)
  from Cons.prems have nf: "\<not> ((st \<or> c = CHR ''{'') \<and> bc + balance [c] = 0)"
    and rest: "\<not> fst (scan_chars cs (bc + balance [c]) (st \<or> c = CHR ''{''))"
    unfolding scan_chars_Cons by (auto split: if_splits)
  have "scan_chars (c # cs) bc st = scan_chars cs (bc + balance [c]) (st \<or> c = CHR ''{'')"
    using nf by (subst scan_chars_Cons) (simp only: if_False)
  also have "\<dots> = (False, (bc + balance [c]) + balance cs, (st \<or> c = CHR ''{'') \<or> CHR ''{'' \<in> set cs)"
    by (rule Cons.IH [OF rest])
  also have "\<dots> = (False, bc + balance (c # cs), st \<or> CHR ''{'' \<in> set (c # cs))"
    using balance_Cons1 [of c cs] by auto
  finally show ?case .
qed

lemma closes_within_0:
  "closes_within (l # ls) bc st 0 \<longleftrightarrow> fst (scan_chars l bc st)"
  by (simp add: closes_within_def scan_chars_found)

lemma closes_within_Suc:
  "closes_within (l # ls) bc st (Suc k)
     \<longleftrightarrow> closes_within ls (bc + balance l) (st \<or> CHR ''{'' \<in> set l) k"
  by (simp add: closes_within_def balance_append add.assoc disj_assoc)

text \<open>Soundness of the scan, for every value of \<open>skip_until\<close>.\<close>

lemma find_end_sound:
  "find_end ls j bc st sk = Some j' \<Longrightarrow>
     \<exists>k. j' = j + k \<and> k < length ls \<and> closes_within ls bc st k
        \<and> (\<forall>k'<k. \<not> closes_within ls bc st k')"
proof (induction ls arbitrary: j bc st)
  case Nil
  then show ?case by simp
next
  case (Cons l ls)
  show ?case
  proof (cases "fst (scan_chars l bc st)")
    case True
    with Cons.prems have "j' = j" by (auto split: prod.splits bool.splits)
    with True show ?thesis
      by (intro exI [where x = 0]) (simp add: closes_within_0)
  next
    case False
    from scan_chars_not_found [OF False] Cons.prems
    have "find_end ls (j + 1) (bc + balance l) (st \<or> CHR ''{'' \<in> set l) sk = Some j'"
      by (simp split: if_splits)
    from Cons.IH [OF this] obtain k where k: "j' = j + 1 + k" "k < length ls"
      "closes_within ls (bc + balance l) (st \<or> CHR ''{'' \<in> set l) k"
      "\<forall>k'<k. \<not> closes_within ls (bc + balance l) (st \<or> CHR ''{'' \<in> set l) k'"
      by blast
    have "\<forall>k'<Suc k. \<not> closes_within (l # ls) bc st k'"
    proof (intro allI impI)
      fix k' assume "k' < Suc k"
      then show "\<not> closes_within (l # ls) bc st k'"
        using False k(4) by (cases k') (simp_all add: closes_within_0 closes_within_Suc)
    qed
    with k show ?thesis
      by (intro exI [where x = "Suc k"]) (simp add: closes_within_Suc)
  qed
qed

text \<open>Completeness, for the first removal of a stage (\<open>skip_until\<close> still negative).\<close>

lemma find_end_complete:
  "sk \<le> 0 \<Longrightarrow> k < length ls \<Longrightarrow> closes_within ls bc st k \<Longrightarrow>
   \<forall>k'<k. \<not> closes_within ls bc st k' \<Longrightarrow>
   find_end ls j bc st sk = Some (j + k)"
proof (induction ls arbitrary: j bc st k)
  case Nil
  then show ?case by simp
next
  case (Cons l ls)
  show ?case
  proof (cases k)
    case 0
    with Cons.prems have "fst (scan_chars l bc st)" by (simp add: closes_within_0)
    with 0 show ?thesis by (auto split: prod.splits bool.splits)
  next
    case (Suc k0)
    with Cons.prems(4) have "\<not> closes_within (l # ls) bc st 0" by blast
    then have nf: "\<not> fst (scan_chars l bc st)" by (simp add: closes_within_0)
    have 1: "k0 < length ls" using Cons.prems(2) Suc by simp
    have 2: "closes_within ls (bc + balance l) (st \<or> CHR ''{'' \<in> set l) k0"
      using Cons.prems(3) Suc by (simp add: closes_within_Suc)
    have 3: "\<forall>k'<k0. \<not> closes_within ls (bc + balance l) (st \<or> CHR ''{'' \<in> set l) k'"
    proof (intro allI impI)
      fix k' assume "k' < k0"
      then have "Suc k' < k" using Suc by simp
      with Cons.prems(4) have "\<not> closes_within (l # ls) bc st (Suc k')" by blast
      then show "\<not> closes_within ls (bc + balance l) (st \<or> CHR ''{'' \<in> set l) k'"
        by (simp add: closes_within_Suc)
    qed
    from Cons.IH [OF Cons.prems(1) 1 2 3, of "j + 1"] scan_chars_not_found [OF nf] Cons.prems(1) Suc
    show ?thesis by simp
  qed
qed

lemma closes_on_drop:
  "i + k < length lines \<Longrightarrow> closes_on lines i (i + k) \<longleftrightarrow> closes_within (drop i lines) 0 False k"
  by (simp add: closes_on_def closes_within_def scanned_def)

lemma never_positive_Nil: "(\<forall>m. b + balance (take m []) \<le> 0) \<longleftrightarrow> b \<le> 0"
  by (simp add: balance_Nil)

lemma never_positive_Cons:
  "(\<forall>m. b + balance (take m (c # cs)) \<le> 0)
     \<longleftrightarrow> b \<le> 0 \<and> (\<forall>m. (b + balance [c]) + balance (take m cs) \<le> 0)"
proof
  assume a: "\<forall>m. b + balance (take m (c # cs)) \<le> 0"
  from a [rule_format, of 0] have "b \<le> 0" by (simp add: balance_Nil)
  moreover have "(b + balance [c]) + balance (take m cs) \<le> 0" for m
    using a [rule_format, of "Suc m"] balance_Cons1 [of c "take m cs"] by simp
  ultimately show "b \<le> 0 \<and> (\<forall>m. (b + balance [c]) + balance (take m cs) \<le> 0)" by blast
next
  assume a: "b \<le> 0 \<and> (\<forall>m. (b + balance [c]) + balance (take m cs) \<le> 0)"
  show "\<forall>m. b + balance (take m (c # cs)) \<le> 0"
  proof
    fix m
    show "b + balance (take m (c # cs)) \<le> 0"
    proof (cases m)
      case 0
      with a show ?thesis by (simp add: balance_Nil)
    next
      case (Suc m')
      with a balance_Cons1 [of c "take m' cs"] show ?thesis by (simp add: add.assoc)
    qed
  qed
qed

lemma not_closes_after_positive:
  assumes "\<forall>m. 0 + balance (take m (lines ! i)) \<le> 0"
  shows "\<not> closes_after_positive lines i i"
proof
  assume "closes_after_positive lines i i"
  then obtain n m where "0 < balance (take m (take n (lines ! i)))"
    by (auto simp: closes_after_positive_def scanned_def)
  then have "0 < balance (take (min m n) (lines ! i))" by simp
  with assms show False by (simp add: not_less [symmetric])
qed

lemma balance_single:
  "balance [c] = (if c = CHR ''{'' then 1 else if c = CHR ''}'' then - 1 else 0)"
  by (simp add: balance_def)

text \<open>
  C1, as stated, fails: the scan tests the flag \<open>started\<close>, which is set by the
  first \<open>{\<close>, not whether the balance has been positive.  When a \<open>}\<close> comes
  before the first \<open>{\<close> the balance goes from -1 to 0 and the scan ends there,
  on a line on which the balance has never been positive.
\<close>

theorem brace_scan_counterexample:
  "substr_in ''function extractContactInfo''
     ([''function extractContactInfo(sep = \"}\") {\<newline>'', ''  return sep;\<newline>'', ''}\<newline>''] ! 0)
   \<and> find_end (drop 0 [''function extractContactInfo(sep = \"}\") {\<newline>'', ''  return sep;\<newline>'', ''}\<newline>''])
        0 0 False (- 1) = Some 0
   \<and> \<not> closes_after_positive
        [''function extractContactInfo(sep = \"}\") {\<newline>'', ''  return sep;\<newline>'', ''}\<newline>''] 0 0"
proof -
  have "\<forall>m. 0 + balance (take m ''function extractContactInfo(sep = \"}\") {\<newline>'') \<le> 0"
    by (simp only: never_positive_Cons never_positive_Nil balance_single) simp
  then have "\<not> closes_after_positive
        [''function extractContactInfo(sep = \"}\") {\<newline>'', ''  return sep;\<newline>'', ''}\<newline>''] 0 0"
    by (intro not_closes_after_positive) simp
  moreover have "substr_in ''function extractContactInfo''
     ([''function extractContactInfo(sep = \"}\") {\<newline>'', ''  return sep;\<newline>'', ''}\<newline>''] ! 0)"
    by code_simp
  moreover have "find_end (drop 0 [''function extractContactInfo(sep = \"}\") {\<newline>'', ''  return sep;\<newline>'', ''}\<newline>''])
        0 0 False (- 1) = Some 0"
    by code_simp
  ultimately show ?thesis by blast
qed

text \<open>
  C1 (amended).  The line that the brace scan computes as the end of the
  extent is the first line at or after the declaration line on which, after
  some character, the balance is zero and a \<open>{\<close> has been read.  For the first
  declaration found in a stage (\<open>skip_until\<close> not yet positive) the scan
  computes that line whenever there is one.
\<close>

theorem find_end_first_closing_line:
  "(find_end (drop i lines) i 0 False sk = Some j
      \<longrightarrow> j < length lines \<and> first_line_from (closes_on lines i) i j)
   \<and> (sk \<le> 0 \<and> j < length lines \<and> first_line_from (closes_on lines i) i j
      \<longrightarrow> find_end (drop i lines) i 0 False sk = Some j)"
proof (rule conjI; rule impI)
  assume "find_end (drop i lines) i 0 False sk = Some j"
  from find_end_sound [OF this] obtain k where k: "j = i + k" "k < length (drop i lines)"
    "closes_within (drop i lines) 0 False k"
    "\<forall>k'<k. \<not> closes_within (drop i lines) 0 False k'"
    by blast
  from k(1,2) have j: "j < length lines" by simp
  have "closes_on lines i j"
    using k(1,3) j closes_on_drop [of i k lines] by simp
  moreover have "\<forall>m\<in>{i..<j}. \<not> closes_on lines i m"
  proof
    fix m assume "m \<in> {i..<j}"
    then have m: "m = i + (m - i)" "m - i < k" "i + (m - i) < length lines"
      using k(1) j by auto
    from k(4) m(2) have "\<not> closes_within (drop i lines) 0 False (m - i)" by blast
    with closes_on_drop [OF m(3)] m(1) show "\<not> closes_on lines i m" by simp
  qed
  ultimately show "j < length lines \<and> first_line_from (closes_on lines i) i j"
    using j k(1) by (simp add: first_line_from_def)
next
  assume a: "sk \<le> 0 \<and> j < length lines \<and> first_line_from (closes_on lines i) i j"
  then have sk: "sk \<le> 0" and j: "j < length lines" and ij: "i \<le> j"
    and c: "closes_on lines i j" and f: "\<forall>m\<in>{i..<j}. \<not> closes_on lines i m"
    by (simp_all add: first_line_from_def)
  have 1: "j - i < length (drop i lines)" using j ij by simp
  have 2: "closes_within (drop i lines) 0 False (j - i)"
    using closes_on_drop [of i "j - i" lines] c j ij by simp
  have 3: "\<forall>k'<j - i. \<not> closes_within (drop i lines) 0 False k'"
  proof (intro allI impI)
    fix k' assume "k' < j - i"
    then have "i + k' \<in> {i..<j}" "i + k' < length lines" using j by auto
    with f closes_on_drop [of i k' lines] show "\<not> closes_within (drop i lines) 0 False k'"
      by blast
  qed
  from find_end_complete [OF sk 1 2 3, of i] ij
  show "find_end (drop i lines) i 0 False sk = Some j" by simp
qed

theorem find_end_first_closing_line_witness:
  "find_end (drop 1 [''// helper\<newline>'', ''function extractContactInfo(html) {\<newline>'',
       ''  return html;\<newline>'', ''}\<newline>'', ''const a = 1;\<newline>'']) 1 0 False (- 1) = Some 3
   \<and> first_line_from (closes_on [''// helper\<newline>'', ''function extractContactInfo(html) {\<newline>'',
       ''  return html;\<newline>'', ''}\<newline>'', ''const a = 1;\<newline>''] 1) 1 3"
proof -
  let ?L = "[''// helper\<newline>'', ''function extractContactInfo(html) {\<newline>'',
       ''  return html;\<newline>'', ''}\<newline>'', ''const a = 1;\<newline>'']"
  have fe: "find_end (drop 1 ?L) 1 0 False (- 1) = Some 3"
    by code_simp
  with find_end_first_closing_line [of 1 ?L "- 1" 3] show ?thesis
    by blast
qed

text \<open>
  Where the balance never goes below zero during the scan, a \<open>{\<close> has been
  read exactly when the balance has been positive, and the two readings of
  ``closes'' agree.
\<close>

lemma balance_pos_has_open: "0 < balance p \<Longrightarrow> CHR ''{'' \<in> set p"
  by (rule ccontr) (simp add: balance_def)

lemma open_then_positive_prefix:
  assumes "CHR ''{'' \<in> set p" and "\<forall>m\<le>length p. 0 \<le> balance (take m p)"
  shows "\<exists>m\<le>length p. 0 < balance (take m p)"
proof -
  from assms(1) obtain a b where p: "p = a @ CHR ''{'' # b"
    by (auto dest: split_list)
  from assms(2) [rule_format, of "length a"] p have "0 \<le> balance a" by simp
  then have "0 < balance (take (Suc (length a)) p)"
    unfolding p by (simp add: balance_append balance_single)
  moreover have "Suc (length a) \<le> length p" unfolding p by simp
  ultimately show ?thesis by blast
qed

lemma closed_iff_positive_before:
  assumes "balance p = 0" and "\<forall>m\<le>length p. 0 \<le> balance (take m p)"
  shows "CHR ''{'' \<in> set p \<longleftrightarrow> (\<exists>m<length p. 0 < balance (take m p))"
proof
  assume "CHR ''{'' \<in> set p"
  from open_then_positive_prefix [OF this assms(2)]
  obtain m where m: "m \<le> length p" "0 < balance (take m p)" by blast
  with assms(1) have "m \<noteq> length p" by auto
  with m(1) have "m < length p" by simp
  with m(2) show "\<exists>m<length p. 0 < balance (take m p)" by blast
next
  assume "\<exists>m<length p. 0 < balance (take m p)"
  then obtain m where "0 < balance (take m p)" by blast
  then have "CHR ''{'' \<in> set (take m p)" by (rule balance_pos_has_open)
  then show "CHR ''{'' \<in> set p" by (rule in_set_takeD)
qed

lemma closes_on_iff_after_positive:
  assumes "\<forall>n\<le>length (lines ! j). \<forall>m\<le>length (scanned lines i j n).
             0 \<le> balance (take m (scanned lines i j n))"
  shows "closes_on lines i j \<longleftrightarrow> closes_after_positive lines i j"
  unfolding closes_on_def closes_after_positive_def
  using assms closed_iff_positive_before by (metis atLeastAtMost_iff)

subsection \<open>The stage\<close>

lemma enumerate_take_Suc:
  "k < length lines \<Longrightarrow>
   enumerate 0 (take (Suc k) lines) = enumerate 0 (take k lines) @ [(k, lines ! k)]"
  by (simp add: take_Suc_conv_app_nth enumerate_append_eq)

lemma fold_take_Suc:
  "k < length lines \<Longrightarrow>
   fold f (enumerate 0 (take (Suc k) lines)) s
     = f (k, lines ! k) (fold f (enumerate 0 (take k lines)) s)"
  by (simp add: enumerate_take_Suc)

lemma stage_no_extent_prefix:
  assumes "\<forall>i<length lines. substr_in target (lines ! i)
             \<longrightarrow> find_end (drop i lines) i 0 False (- 1) = None"
    and "k \<le> length lines"
  shows "fold (stage_step target is_comment name lines) (enumerate 0 (take k lines))
           \<lparr>skip_until = - 1, new_lines = [], removed_lines = removed\<rparr>
         = \<lparr>skip_until = - 1, new_lines = filter (\<lambda>l. \<not> substr_in target l) (take k lines),
            removed_lines = removed\<rparr>"
  using assms(2)
proof (induction k)
  case 0
  then show ?case by simp
next
  case (Suc k)
  then have k: "k < length lines" by simp
  let ?s = "\<lparr>skip_until = - 1, new_lines = filter (\<lambda>l. \<not> substr_in target l) (take k lines),
            removed_lines = removed\<rparr>"
  have "fold (stage_step target is_comment name lines) (enumerate 0 (take (Suc k) lines))
           \<lparr>skip_until = - 1, new_lines = [], removed_lines = removed\<rparr>
        = stage_step target is_comment name lines (k, lines ! k) ?s"
    using Suc k by (simp only: fold_take_Suc)
  also have "\<dots> = \<lparr>skip_until = - 1,
      new_lines = filter (\<lambda>l. \<not> substr_in target l) (take k lines @ [lines ! k]),
      removed_lines = removed\<rparr>"
  proof (cases "substr_in target (lines ! k)")
    case True
    with assms(1) k have "find_end (drop k lines) k 0 False (- 1) = None" by blast
    with True show ?thesis by (simp add: stage_step_def)
  next
    case False
    then show ?thesis by (simp add: stage_step_def)
  qed
  finally show ?case using k by (simp only: take_Suc_conv_app_nth)
qed

text \<open>
  C3, as stated, fails: when the scan reaches the end of the file nothing is
  recorded and no line behind the declaration is skipped, but the declaration
  line itself is not appended, so the output differs from the input.
\<close>

theorem unbalanced_counterexample:
  "substr_in ''function extractContactInfo''
     ([''function extractContactInfo(html) {\<newline>'', ''  return html;\<newline>''] ! 0)
   \<and> find_end (drop 0 [''function extractContactInfo(html) {\<newline>'', ''  return html;\<newline>''])
        0 0 False (- 1) = None
   \<and> new_lines (step2 [''function extractContactInfo(html) {\<newline>'', ''  return html;\<newline>''] [])
       = [''  return html;\<newline>'']"
  by code_simp

text \<open>
  C3 (amended).  When the scan from every line that contains the target
  reaches the end of the file without closing, the stage records nothing,
  leaves \<open>skip_until\<close> at -1, and its output is the input without the lines
  that contain the target.
\<close>

theorem stage_without_extent:
  assumes "\<forall>i<length lines. substr_in target (lines ! i)
             \<longrightarrow> find_end (drop i lines) i 0 False (- 1) = None"
  shows "function_stage target is_comment name lines removed
         = \<lparr>skip_until = - 1, new_lines = filter (\<lambda>l. \<not> substr_in target l) lines,
            removed_lines = removed\<rparr>"
  using stage_no_extent_prefix [OF assms, of "length lines"]
  by (simp add: function_stage_def)

theorem stage_without_extent_witness:
  "step2 [''const a = 1;\<newline>'', ''function extractContactInfo(html) {\<newline>'', ''  return html;\<newline>''] []
   = \<lparr>skip_until = - 1, new_lines = [''const a = 1;\<newline>'', ''  return html;\<newline>''], removed_lines = []\<rparr>"
proof -
  let ?L = "[''const a = 1;\<newline>'', ''function extractContactInfo(html) {\<newline>'', ''  return html;\<newline>'']"
  have 0: "\<not> substr_in ''function extractContactInfo'' (?L ! 0)"
    by code_simp
  have 1: "find_end (drop (Suc 0) ?L) (Suc 0) 0 False (- 1) = None"
    by code_simp
  have 2: "\<not> substr_in ''function extractContactInfo'' (?L ! Suc (Suc 0))"
    by code_simp
  have h: "\<forall>i<length ?L. substr_in ''function extractContactInfo'' (?L ! i)
             \<longrightarrow> find_end (drop i ?L) i 0 False (- 1) = None"
  proof (intro allI impI)
    fix i assume "i < length ?L" and t: "substr_in ''function extractContactInfo'' (?L ! i)"
    then have "i = 0 \<or> i = Suc 0 \<or> i = Suc (Suc 0)" by auto
    with 0 1 2 t show "find_end (drop i ?L) i 0 False (- 1) = None" by blast
  qed
  have f: "filter (\<lambda>l. \<not> substr_in ''function extractContactInfo'' l) ?L
      = [''const a = 1;\<newline>'', ''  return html;\<newline>'']"
    by code_simp
  from stage_without_extent [OF h, of comment_step2 "''extractContactInfo''" "[]"] f
  show ?thesis by (simp add: step2_def)
qed

text \<open>
  What the stage does when it removes one function: the declaration is on line
  \<open>i\<close>, the scan ends on line \<open>j\<close>, and no other line outside the extent
  contains the target.  Lines \<open>i\<close> to \<open>j\<close> are removed.  The comment lines before
  the declaration enter the audit record through \<open>walk_back\<close>, but they were
  appended before the declaration was reached and stay in the output.
\<close>

lemma stage_single_extent_prefix:
  assumes i: "i < length lines" and ti: "substr_in target (lines ! i)"
    and before: "\<forall>k<i. \<not> substr_in target (lines ! k)"
    and fe: "find_end (drop i lines) i 0 False (- 1) = Some j"
    and after: "\<forall>k. j < k \<and> k < length lines \<longrightarrow> \<not> substr_in target (lines ! k)"
    and k: "k \<le> length lines"
  shows "fold (stage_step target is_comment name lines) (enumerate 0 (take k lines))
           \<lparr>skip_until = - 1, new_lines = [], removed_lines = removed\<rparr>
         = (if k \<le> i
            then \<lparr>skip_until = - 1, new_lines = take k lines, removed_lines = removed\<rparr>
            else \<lparr>skip_until = int j + 1,
                  new_lines = take i lines @ drop (Suc j) (take k lines),
                  removed_lines = removed @
                    [(walk_back is_comment lines i + 1,
                      Function_desc name (int j - int (walk_back is_comment lines i) + 1))]\<rparr>)"
  using k
proof (induction k)
  case 0
  then show ?case by simp
next
  case (Suc k)
  then have k: "k < length lines" by simp
  from find_end_sound [OF fe] have ij: "i \<le> j" by auto
  let ?f = "stage_step target is_comment name lines"
  let ?init = "\<lparr>skip_until = - 1, new_lines = [], removed_lines = removed\<rparr>"
  let ?rem = "removed @ [(walk_back is_comment lines i + 1,
                      Function_desc name (int j - int (walk_back is_comment lines i) + 1))]"
  have step: "fold ?f (enumerate 0 (take (Suc k) lines)) ?init
      = ?f (k, lines ! k) (fold ?f (enumerate 0 (take k lines)) ?init)"
    using k by (rule fold_take_Suc)
  consider "k < i" | "k = i" | "i < k" "k \<le> j" | "j < k" by linarith
  then show ?case
  proof cases
    case 1
    with before have "\<not> substr_in target (lines ! k)" by blast
    with 1 Suc k show ?thesis
      unfolding step by (simp add: stage_step_def take_Suc_conv_app_nth)
  next
    case 2
    with Suc k ti fe ij show ?thesis
      unfolding step by (simp add: stage_step_def Let_def)
  next
    case 3
    with Suc k show ?thesis
      unfolding step by (simp add: stage_step_def)
  next
    case 4
    with after k have nt: "\<not> substr_in target (lines ! k)" by blast
    from 4 ij have "\<not> k \<le> i" by simp
    moreover have "drop (Suc j) (take (Suc k) lines) = drop (Suc j) (take k lines) @ [lines ! k]"
      using 4 k by (simp add: take_Suc_conv_app_nth)
    ultimately show ?thesis
      using Suc k nt 4 unfolding step by (simp add: stage_step_def)
  qed
qed

lemma stage_single_extent:
  assumes "i < length lines" and "substr_in target (lines ! i)"
    and "\<forall>k<i. \<not> substr_in target (lines ! k)"
    and "find_end (drop i lines) i 0 False (- 1) = Some j"
    and "\<forall>k. j < k \<and> k < length lines \<longrightarrow> \<not> substr_in target (lines ! k)"
  shows "function_stage target is_comment name lines removed
         = \<lparr>skip_until = int j + 1,
            new_lines = take i lines @ drop (Suc j) lines,
            removed_lines = removed @
              [(walk_back is_comment lines i + 1,
                Function_desc name (int j - int (walk_back is_comment lines i) + 1))]\<rparr>"
  using stage_single_extent_prefix [OF assms, of "length lines"] assms(1)
  by (simp add: function_stage_def)

lemma stage_single_extent_length:
  assumes "i < length lines" and "substr_in target (lines ! i)"
    and "\<forall>k<i. \<not> substr_in target (lines ! k)"
    and "find_end (drop i lines) i 0 False (- 1) = Some j"
    and "\<forall>k. j < k \<and> k < length lines \<longrightarrow> \<not> substr_in target (lines ! k)"
  shows "length (new_lines (function_stage target is_comment name lines removed))
         = length lines - (j - i + 1)"
proof -
  from find_end_sound [OF assms(4)] have "i \<le> j" "j < length lines" by auto
  then show ?thesis
    unfolding stage_single_extent [OF assms] by simp
qed

text \<open>
  C2 does not hold of the code.  With one comment line before a three-line
  function, the audit record reports a removal of four lines that starts at
  line 1, and the output still has the comment line: two lines of five are
  left, not one.
\<close>

theorem comment_block_kept_example:
  "step2 [''/** Extract contact info */\<newline>'', ''function extractContactInfo(html) {\<newline>'',
          ''  return html;\<newline>'', ''}\<newline>'', ''const a = 1;\<newline>''] []
   = \<lparr>skip_until = 4,
      new_lines = [''/** Extract contact info */\<newline>'', ''const a = 1;\<newline>''],
      removed_lines = [(1, Function_desc ''extractContactInfo'' 4)]\<rparr>"
  by code_simp

section \<open>Properties of Function-Stripper, steps 7 to 10\<close>

lemma length_rename_stage: "length (rename_stage lines) = length lines"
  by (induction lines) auto

lemma rename_stage_nth:
  "i < length lines \<Longrightarrow> rename_stage lines ! i = rename_line (lines ! i)"
  by (induction lines arbitrary: i) (auto simp: nth_Cons split: nat.splits)

lemma field_shape_empty: "\<not> field_shape []"
  by (simp add: field_shape_def re_match_ws_def)

lemma field_stage_filter: "field_stage lines = filter (\<lambda>l. \<not> field_shape l) lines"
  by (induction lines) auto

lemma rename_stage_append:
  "rename_stage (xs @ ys) = rename_stage xs @ rename_stage ys"
  by (induction xs) auto

lemma field_stage_append: "field_stage (xs @ ys) = field_stage xs @ field_stage ys"
  by (simp add: field_stage_filter)

lemma region_loop_append:
  "region_loop b (xs @ ys) = region_loop b xs @ region_loop (region_skip_after b xs) ys"
  by (induction xs arbitrary: b) (auto simp: Let_def)

lemma workflow_loop_append:
  "workflow_loop b (xs @ ys)
     = workflow_loop b xs @ workflow_loop (workflow_skip_after b xs) ys"
  by (induction xs arbitrary: b) (auto simp: Let_def)

lemma region_loop_blank: "region_loop False ([] # ys) = [] # region_loop False ys"
  by (simp add: start_marker_def end_marker_def)

lemma workflow_loop_blank: "workflow_loop False ([] # ys) = [] # workflow_loop False ys"
  by simp

text \<open>
  A blanked line that steps 8 and 9 reach with their skip flags cleared goes
  through steps 7 to 10 as an empty element, between the results for the lines
  before it and for the lines behind it.
\<close>

lemma steps7to10_blank:
  assumes "substr_in ''const leadGrade = result.emailQA'' l"
    and "\<not> region_skip_after False (rename_stage pre)"
    and "\<not> workflow_skip_after False (region_stage (rename_stage pre))"
  shows "steps7to10 (pre @ l # post) = steps7to10 pre @ [] # steps7to10 post"
proof -
  have "rename_stage (pre @ l # post) = rename_stage pre @ [] # rename_stage post"
    using assms(1) by (simp add: rename_stage_append rename_line_def)
  then have "region_stage (rename_stage (pre @ l # post))
      = region_stage (rename_stage pre) @ [] # region_stage (rename_stage post)"
    using assms(2)
    by (simp only: region_stage_def region_loop_append region_loop_blank)
  then have "workflow_stage (region_stage (rename_stage (pre @ l # post)))
      = workflow_stage (region_stage (rename_stage pre))
        @ [] # workflow_stage (region_stage (rename_stage post))"
    using assms(3)
    by (simp only: workflow_stage_def workflow_loop_append workflow_loop_blank)
  then show ?thesis
    by (simp add: steps7to10_def field_stage_append field_shape_empty)
qed

text \<open>
  A blanked line that step 8 or step 9 reaches while it is skipping is dropped
  and leaves the flag as it was: the result is that of the sequence without
  the line.
\<close>

lemma region_loop_blank_skipped: "region_loop True ([] # ys) = region_loop True ys"
  by (simp add: start_marker_def end_marker_def)

lemma workflow_loop_blank_skipped: "workflow_loop True ([] # ys) = workflow_loop True ys"
  by simp

lemma steps7to10_blank_skipped:
  assumes "substr_in ''const leadGrade = result.emailQA'' l"
    and "region_skip_after False (rename_stage pre)
         \<or> workflow_skip_after False (region_stage (rename_stage pre))"
  shows "steps7to10 (pre @ l # post) = steps7to10 (pre @ post)"
proof -
  have r: "rename_stage (pre @ l # post) = rename_stage pre @ [] # rename_stage post"
    using assms(1) by (simp add: rename_stage_append rename_line_def)
  have r2: "rename_stage (pre @ post) = rename_stage pre @ rename_stage post"
    by (rule rename_stage_append)
  show ?thesis
  proof (cases "region_skip_after False (rename_stage pre)")
    case True
    then have "region_stage (rename_stage pre @ [] # rename_stage post)
        = region_stage (rename_stage pre @ rename_stage post)"
      by (simp only: region_stage_def region_loop_append region_loop_blank_skipped)
    then show ?thesis
      by (simp only: steps7to10_def r r2)
  next
    case False
    with assms(2) have w: "workflow_skip_after False (region_stage (rename_stage pre))"
      by blast
    have 1: "region_stage (rename_stage pre @ [] # rename_stage post)
        = region_stage (rename_stage pre) @ [] # region_loop False (rename_stage post)"
      using False
      by (simp only: region_stage_def region_loop_append region_loop_blank)
    have 2: "region_stage (rename_stage pre @ rename_stage post)
        = region_stage (rename_stage pre) @ region_loop False (rename_stage post)"
      using False
      by (simp only: region_stage_def region_loop_append)
    have "workflow_stage (region_stage (rename_stage pre @ [] # rename_stage post))
        = workflow_stage (region_stage (rename_stage pre @ rename_stage post))"
      using w
      by (simp only: 1 2 workflow_stage_def workflow_loop_append workflow_loop_blank_skipped)
    then show ?thesis
      by (simp only: steps7to10_def r r2)
  qed
qed

text \<open>
  C10, as stated, fails for a blanked line inside a region that step 8 skips:
  the line is blanked by step 7 and then dropped with the region, so the
  reported final count does not include it.
\<close>

theorem blanked_line_in_region_counterexample:
  "substr_in ''const leadGrade = result.emailQA''
     ([''// 3. Save email content\<newline>'', ''const leadGrade = result.emailQA;\<newline>'',
       ''// 4. Save client info\<newline>''] ! 1)
   \<and> rename_stage [''// 3. Save email content\<newline>'', ''const leadGrade = result.emailQA;\<newline>'',
       ''// 4. Save client info\<newline>''] ! 1 = []
   \<and> final_count (main [''// 3. Save email content\<newline>'', ''const leadGrade = result.emailQA;\<newline>'',
       ''// 4. Save client info\<newline>'']) = 1"
  by code_simp

text \<open>
  C10 (amended).  Step 7 keeps the length of the line sequence for every
  input.  When the sequence that reaches step 7 is \<open>pre @ l # post\<close> and the
  line \<open>l\<close> contains \<open>const leadGrade = result.emailQA\<close>: if steps 8 and 9
  reach \<open>l\<close> with their skip flags cleared, then \<open>l\<close> becomes an empty element
  that stays in the final sequence, so the reported final count is the count
  for \<open>pre\<close>, plus one, plus the count for \<open>post\<close>, and the written file is
  the text for \<open>pre\<close> followed at once by the text for \<open>post\<close>; if step 8 or
  step 9 is skipping when it reaches \<open>l\<close>, the element is dropped and the
  final sequence and count are those of \<open>pre @ post\<close>.
\<close>

theorem blanked_line_counted_not_written:
  "length (rename_stage xs) = length xs
   \<and> (fst (steps1to6 lines) = pre @ l # post
      \<and> substr_in ''const leadGrade = result.emailQA'' l
      \<and> \<not> region_skip_after False (rename_stage pre)
      \<and> \<not> workflow_skip_after False (region_stage (rename_stage pre))
      \<longrightarrow> rename_stage (pre @ l # post) ! length pre = []
        \<and> steps7to10 (pre @ l # post) = steps7to10 pre @ [] # steps7to10 post
        \<and> final_count (main lines) = length (steps7to10 pre) + 1 + length (steps7to10 post)
        \<and> written (main lines) = writelines (steps7to10 pre) @ writelines (steps7to10 post))
   \<and> (fst (steps1to6 lines) = pre @ l # post
      \<and> substr_in ''const leadGrade = result.emailQA'' l
      \<and> (region_skip_after False (rename_stage pre)
           \<or> workflow_skip_after False (region_stage (rename_stage pre)))
      \<longrightarrow> steps7to10 (pre @ l # post) = steps7to10 (pre @ post)
        \<and> final_count (main lines) = length (steps7to10 (pre @ post)))"
proof (intro conjI; (rule impI)?)
  show "length (rename_stage xs) = length xs"
    by (rule length_rename_stage)
next
  assume a: "fst (steps1to6 lines) = pre @ l # post
      \<and> substr_in ''const leadGrade = result.emailQA'' l
      \<and> \<not> region_skip_after False (rename_stage pre)
      \<and> \<not> workflow_skip_after False (region_stage (rename_stage pre))"
  then have l: "substr_in ''const leadGrade = result.emailQA'' l" by simp
  from a have s: "steps7to10 (pre @ l # post) = steps7to10 pre @ [] # steps7to10 post"
    by (intro steps7to10_blank) simp_all
  have r: "rename_stage (pre @ l # post) ! length pre = []"
    using l by (simp add: rename_stage_nth rename_line_def)
  obtain l6 removed where p: "steps1to6 lines = (l6, removed)"
    by (cases "steps1to6 lines")
  with a have l6: "l6 = pre @ l # post" by simp
  have "final_count (main lines) = length (steps7to10 pre) + 1 + length (steps7to10 post)"
    using p s by (simp add: main_def l6 Let_def)
  moreover have "written (main lines)
      = writelines (steps7to10 pre) @ writelines (steps7to10 post)"
    using p s by (simp add: main_def l6 Let_def writelines_def)
  ultimately show "rename_stage (pre @ l # post) ! length pre = []
        \<and> steps7to10 (pre @ l # post) = steps7to10 pre @ [] # steps7to10 post
        \<and> final_count (main lines) = length (steps7to10 pre) + 1 + length (steps7to10 post)
        \<and> written (main lines) = writelines (steps7to10 pre) @ writelines (steps7to10 post)"
    using r s by blast
next
  assume a: "fst (steps1to6 lines) = pre @ l # post
      \<and> substr_in ''const leadGrade = result.emailQA'' l
      \<and> (region_skip_after False (rename_stage pre)
           \<or> workflow_skip_after False (region_stage (rename_stage pre)))"
  then have s: "steps7to10 (pre @ l # post) = steps7to10 (pre @ post)"
    by (intro steps7to10_blank_skipped) simp_all
  obtain l6 removed where p: "steps1to6 lines = (l6, removed)"
    by (cases "steps1to6 lines")
  with a have l6: "l6 = pre @ l # post" by simp
  have "final_count (main lines) = length (steps7to10 (pre @ post))"
    using p s by (simp add: main_def l6 Let_def)
  with s show "steps7to10 (pre @ l # post) = steps7to10 (pre @ post)
        \<and> final_count (main lines) = length (steps7to10 (pre @ post))"
    by blast
qed

theorem blanked_line_counted_not_written_witness:
  "final_count (main [''a\<newline>'', ''  const leadGrade = result.emailQA;\<newline>'', ''b\<newline>'']) = 3
   \<and> written (main [''a\<newline>'', ''  const leadGrade = result.emailQA;\<newline>'', ''b\<newline>'']) = ''a\<newline>b\<newline>''
   \<and> steps7to10 [''a\<newline>'', ''  const leadGrade = result.emailQA;\<newline>'', ''b\<newline>'']
       = [''a\<newline>'', [], ''b\<newline>'']
   \<and> final_count (main [''// 3. Save email content\<newline>'',
         ''  const leadGrade = result.emailQA;\<newline>'', ''// 4. Save client info\<newline>'']) = 1"
proof -
  let ?l = "''  const leadGrade = result.emailQA;\<newline>''"
  let ?L = "[''a\<newline>'', ?l, ''b\<newline>'']"
  have 1: "fst (steps1to6 ?L) = [''a\<newline>''] @ ?l # [''b\<newline>'']" by code_simp
  have 2: "substr_in ''const leadGrade = result.emailQA'' ?l" by code_simp
  have 3: "\<not> region_skip_after False (rename_stage [''a\<newline>''])" by code_simp
  have 4: "\<not> workflow_skip_after False (region_stage (rename_stage [''a\<newline>'']))" by code_simp
  have 5: "steps7to10 [''a\<newline>''] = [''a\<newline>'']" by code_simp
  have 6: "steps7to10 [''b\<newline>''] = [''b\<newline>'']" by code_simp
  from blanked_line_counted_not_written [of "[]" ?L "[''a\<newline>'']" ?l "[''b\<newline>'']"] 1 2 3 4
  have "steps7to10 ([''a\<newline>''] @ ?l # [''b\<newline>''])
          = steps7to10 [''a\<newline>''] @ [] # steps7to10 [''b\<newline>'']
      \<and> final_count (main ?L) = length (steps7to10 [''a\<newline>'']) + 1 + length (steps7to10 [''b\<newline>''])
      \<and> written (main ?L) = writelines (steps7to10 [''a\<newline>'']) @ writelines (steps7to10 [''b\<newline>''])"
    by blast
  then have first: "final_count (main ?L) = 3 \<and> written (main ?L) = ''a\<newline>b\<newline>''
      \<and> steps7to10 ?L = [''a\<newline>'', [], ''b\<newline>'']"
    by (simp add: 5 6 writelines_def)
  let ?s = "''// 3. Save email content\<newline>''" and ?e = "''// 4. Save client info\<newline>''"
  let ?M = "[?s, ?l, ?e]"
  have 7: "fst (steps1to6 ?M) = [?s] @ ?l # [?e]" by code_simp
  have 8: "region_skip_after False (rename_stage [?s])" by code_simp
  have 9: "steps7to10 ([?s] @ [?e]) = [?e]" by code_simp
  from blanked_line_counted_not_written [of "[]" ?M "[?s]" ?l "[?e]"] 7 2 8
  have "final_count (main ?M) = length (steps7to10 ([?s] @ [?e]))"
    by blast
  then have "final_count (main ?M) = 1"
    by (simp only: 9) simp
  with first show ?thesis
    by blast
qed

text \<open>The whole run on a small input, and on the empty file.\<close>

lemma main_blank_example:
  "main [''  const leadGrade = result.emailQA;\<newline>'', ''x\<newline>'']
   = \<lparr>written = ''x\<newline>'', original_count = 2, final_count = 2, audit = Inr ([], 0)\<rparr>"
  by code_simp

lemma main_empty_file:
  "main [] = \<lparr>written = [], original_count = 0, final_count = 0,
      audit = Inl ZeroDivisionError\<rparr>"
  by code_simp

lemma region_loop_no_start:
  "\<forall>l\<in>set xs. \<not> start_marker l \<Longrightarrow> region_loop False xs = xs"
  by (induction xs) auto

lemma region_loop_open:
  "start_marker s \<Longrightarrow> \<not> end_marker s \<Longrightarrow>
   region_loop b (pre @ s # rest) = region_loop b pre @ region_loop True rest"
  by (induction pre arbitrary: b) (auto simp: Let_def)

lemma region_loop_close:
  "\<forall>m\<in>set mid. \<not> end_marker m \<Longrightarrow> end_marker e \<Longrightarrow>
   region_loop True (mid @ e # post) = e # region_loop False post"
  by (induction mid) (auto simp: Let_def)

lemma region_loop_no_end:
  "\<forall>m\<in>set rest. \<not> end_marker m \<Longrightarrow> region_loop True rest = []"
  by (induction rest) (auto simp: Let_def)

text \<open>
  C4, as stated, fails where the start-marker line also contains an end
  marker: the end-marker test comes second and keeps the line, and the lines
  behind it are kept as well.
\<close>

theorem region_both_markers_counterexample:
  "start_marker ''// 3. Save email content // 4. Save client info\<newline>''
   \<and> end_marker ''// 4. Save client info\<newline>''
   \<and> region_stage [''// 3. Save email content // 4. Save client info\<newline>'',
         ''fs.writeFileSync(a, b);\<newline>'', ''// 4. Save client info\<newline>'']
       = [''// 3. Save email content // 4. Save client info\<newline>'',
         ''fs.writeFileSync(a, b);\<newline>'', ''// 4. Save client info\<newline>'']"
  by code_simp

text \<open>
  C4 (amended).  A line \<open>s\<close> that matches a start marker and no end marker,
  followed by lines \<open>mid\<close> without end marker and then by an end-marker line
  \<open>e\<close>: \<open>s\<close> and \<open>mid\<close> are dropped and \<open>e\<close> is kept, whatever comes before and
  after; the lines before and the lines after are treated on their own, and
  are all kept when none of them matches a start marker.
\<close>

theorem region_stage_removes_region:
  assumes "start_marker s" and "\<not> end_marker s"
    and "\<forall>m\<in>set mid. \<not> end_marker m" and "end_marker e"
  shows "region_stage (pre @ s # mid @ e # post)
           = region_stage pre @ e # region_stage post
         \<and> ((\<forall>l\<in>set pre. \<not> start_marker l) \<longrightarrow> region_stage pre = pre)
         \<and> ((\<forall>l\<in>set post. \<not> start_marker l) \<longrightarrow> region_stage post = post)"
proof -
  have "region_loop False (pre @ s # mid @ e # post)
          = region_loop False pre @ region_loop True (mid @ e # post)"
    using assms(1,2) by (rule region_loop_open)
  also have "region_loop True (mid @ e # post) = e # region_loop False post"
    using assms(3,4) by (rule region_loop_close)
  finally show ?thesis
    by (simp add: region_stage_def region_loop_no_start)
qed

theorem region_stage_removes_region_witness:
  "region_stage ([''a\<newline>''] @ ''// 3. Save email content\<newline>'' # [''x\<newline>'', ''y\<newline>'']
       @ ''// 4. Save client info\<newline>'' # [''b\<newline>''])
     = [''a\<newline>'', ''// 4. Save client info\<newline>'', ''b\<newline>'']"
proof -
  have 1: "start_marker ''// 3. Save email content\<newline>''" by code_simp
  have 2: "\<not> end_marker ''// 3. Save email content\<newline>''" by code_simp
  have 3: "\<forall>m\<in>set [''x\<newline>'', ''y\<newline>'']. \<not> end_marker m" by code_simp
  have 4: "end_marker ''// 4. Save client info\<newline>''" by code_simp
  have 5: "\<forall>l\<in>set [''a\<newline>'']. \<not> start_marker l" by code_simp
  have 6: "\<forall>l\<in>set [''b\<newline>'']. \<not> start_marker l" by code_simp
  from region_stage_removes_region [OF 1 2 3 4, of "[''a\<newline>'']" "[''b\<newline>'']"] 5 6
  show ?thesis by simp
qed

text \<open>
  C9, as stated, fails for the same kind of line: a start-marker line that
  also contains an end marker leaves the skip flag cleared, so it and the
  lines behind it are kept although no later line matches an end marker.
\<close>

theorem region_unclosed_counterexample:
  "start_marker ''// 3c. Save QA review, then // 3. Save client info\<newline>''
   \<and> \<not> end_marker ''fs.writeFileSync(a, b);\<newline>''
   \<and> region_stage [''// 3c. Save QA review, then // 3. Save client info\<newline>'',
         ''fs.writeFileSync(a, b);\<newline>'']
       = [''// 3c. Save QA review, then // 3. Save client info\<newline>'',
         ''fs.writeFileSync(a, b);\<newline>'']"
  by code_simp

text \<open>
  C9 (amended).  A line \<open>s\<close> that matches a start marker and no end marker,
  with no end-marker line behind it: \<open>s\<close> and every line behind it are
  deleted; the output is that of the lines before \<open>s\<close>.
\<close>

theorem region_stage_unclosed:
  assumes "start_marker s" and "\<not> end_marker s" and "\<forall>m\<in>set rest. \<not> end_marker m"
  shows "region_stage (pre @ s # rest) = region_stage pre"
proof -
  have "region_loop False (pre @ s # rest) = region_loop False pre @ region_loop True rest"
    using assms(1,2) by (rule region_loop_open)
  with assms(3) show ?thesis
    by (simp add: region_stage_def region_loop_no_end)
qed

theorem region_stage_unclosed_witness:
  "region_stage ([''a\<newline>''] @ ''// 3b. Save critique reasoning\<newline>'' # [''x\<newline>'', ''y\<newline>''])
     = [''a\<newline>'']"
proof -
  have 1: "start_marker ''// 3b. Save critique reasoning\<newline>''" by code_simp
  have 2: "\<not> end_marker ''// 3b. Save critique reasoning\<newline>''" by code_simp
  have 3: "\<forall>m\<in>set [''x\<newline>'', ''y\<newline>'']. \<not> end_marker m" by code_simp
  have 4: "region_stage [''a\<newline>''] = [''a\<newline>'']" by code_simp
  from region_stage_unclosed [OF 1 2 3, of "[''a\<newline>'']"] 4
  show ?thesis by simp
qed

text \<open>
  C8, as stated, fails: \<open>re.match\<close> anchors the pattern at the start of the line
  only, so a line with more text after \<open>email: email,\<close> matches the shape and
  is dropped.
\<close>

theorem field_email_trailing_counterexample:
  "re_match_ws ''email: email,'' ''    email: email, phone: phone,\<newline>''
   \<and> strip_space ''    email: email, phone: phone,\<newline>'' \<noteq> ''email: email,''
   \<and> field_stage [''    email: email, phone: phone,\<newline>''] = []"
  by code_simp

text \<open>
  C8 (amended).  Step 10 drops exactly the lines that have one of the fixed
  shapes.  The email shape holds exactly for the lines that consist of
  whitespace, then \<open>email: email,\<close>, then anything, and every such line is
  dropped, whatever follows \<open>email: email,\<close> on it.
\<close>

theorem field_stage_email_shape:
  "field_stage lines = filter (\<lambda>l. \<not> field_shape l) lines
   \<and> (re_match_ws ''email: email,'' line \<longleftrightarrow>
        (\<exists>ws rest. line = ws @ ''email: email,'' @ rest \<and> (\<forall>c\<in>set ws. is_space c)))
   \<and> ((\<forall>c\<in>set ws. is_space c)
        \<longrightarrow> ws @ ''email: email,'' @ rest \<notin> set (field_stage lines))"
proof -
  have ns: "\<not> is_space (hd ''email: email,'')"
    by (simp add: is_space_def)
  have iff: "re_match_ws ''email: email,'' l \<longleftrightarrow>
        (\<exists>ws rest. l = ws @ ''email: email,'' @ rest \<and> (\<forall>c\<in>set ws. is_space c))" for l
    using ns re_match_ws_iff [of "''email: email,''" l] by simp
  have "ws @ ''email: email,'' @ rest \<notin> set (field_stage lines)"
    if "\<forall>c\<in>set ws. is_space c"
  proof -
    from that have "re_match_ws ''email: email,'' (ws @ ''email: email,'' @ rest)"
      unfolding iff by blast
    then have "field_shape (ws @ ''email: email,'' @ rest)"
      by (simp add: field_shape_def)
    then show ?thesis
      by (simp add: field_stage_filter)
  qed
  with iff [of line] show ?thesis
    by (simp add: field_stage_filter)
qed

theorem field_stage_email_shape_witness:
  "field_stage [''    email: email, phone: phone,\<newline>'', ''  name: name,\<newline>'']
     = [''  name: name,\<newline>'']
   \<and> ''    '' @ ''email: email,'' @ '' phone: phone,\<newline>''
       \<notin> set (field_stage [''    email: email, phone: phone,\<newline>'', ''  name: name,\<newline>''])
   \<and> re_match_ws ''email: email,'' (''    '' @ ''email: email,'' @ '' phone: phone,\<newline>'')"
proof -
  let ?L = "[''    email: email, phone: phone,\<newline>'', ''  name: name,\<newline>'']"
  have w: "\<forall>c\<in>set ''    ''. is_space c"
    by (simp add: is_space_def)
  then have e: "\<exists>ws rest. ''    '' @ ''email: email,'' @ '' phone: phone,\<newline>''
      = ws @ ''email: email,'' @ rest \<and> (\<forall>c\<in>set ws. is_space c)"
    by blast
  have f: "filter (\<lambda>l. \<not> field_shape l) ?L = [''  name: name,\<newline>'']"
    by code_simp
  note t = field_stage_email_shape
      [of ?L "''    '' @ ''email: email,'' @ '' phone: phone,\<newline>''" "''    ''" "'' phone: phone,\<newline>''"]
  from t f have 1: "field_stage ?L = [''  name: name,\<newline>'']"
    by (simp only:)
  from t w have 2: "''    '' @ ''email: email,'' @ '' phone: phone,\<newline>'' \<notin> set (field_stage ?L)"
    by blast
  from t e have 3: "re_match_ws ''email: email,'' (''    '' @ ''email: email,'' @ '' phone: phone,\<newline>'')"
    by blast
  from 1 2 3 show ?thesis
    by (intro conjI)
qed

section \<open>Properties of Field-Injector\<close>

lemma marker_in_insertion: "substr_in (marker source) (insertion source source_type)"
proof -
  have "insertion source source_type
      = '',\<newline>      '' @ marker source @ ('',\<newline>      source_type: '' @ quoted source_type)"
    by (simp add: insertion_def marker_def)
  then show ?thesis unfolding substr_in_iff by blast
qed

text \<open>A substitution pass either changes nothing or leaves the inserted text in its result.\<close>

lemma re_sub_same_or_contains:
  "substr_in m ins \<Longrightarrow> re_sub p ins s = s \<or> substr_in m (re_sub p ins s)"
proof (induction p ins s rule: re_sub.induct)
  case (1 p ins)
  then show ?case by simp
next
  case (2 p ins c cs)
  show ?case
  proof (cases "match_at p (c # cs)")
    case None
    with 2 show ?thesis by auto
  next
    case (Some a)
    obtain n1 n2 where a: "a = (n1, n2)" by (cases a)
    from "2.prems" obtain x y where "ins = x @ m @ y"
      unfolding substr_in_iff by blast
    then have "take n1 (c # cs) @ ins @ take n2 (drop n1 (c # cs))
          @ re_sub p ins (drop (n1 + n2 - 1) cs)
       = (take n1 (c # cs) @ x) @ m
          @ (y @ take n2 (drop n1 (c # cs)) @ re_sub p ins (drop (n1 + n2 - 1) cs))"
      by simp
    then have "substr_in m (take n1 (c # cs) @ ins @ take n2 (drop n1 (c # cs))
          @ re_sub p ins (drop (n1 + n2 - 1) cs))"
      unfolding substr_in_iff by blast
    then show ?thesis using Some a by simp
  qed
qed

lemma passes_same_or_marker:
  "pass_B source source_type (pass_A source source_type content) = content
   \<or> substr_in (marker source) (pass_B source source_type (pass_A source source_type content))"
  using re_sub_same_or_contains [OF marker_in_insertion [of source source_type], of Pass_A content]
    re_sub_same_or_contains [OF marker_in_insertion [of source source_type], of Pass_B
      "pass_A source source_type content"]
  by (auto simp: pass_A_def pass_B_def)

text \<open>
  C5.  Field-Injector is idempotent: processing a file a second time leaves
  the file system as the first run left it, and the second run never reports
  an update.  Either the first run changed nothing, or its result holds the
  marker and the guard skips the file.
\<close>

theorem process_file_idempotent:
  "fst (process_file (fst (process_file fs spec)) spec) = fst (process_file fs spec)
   \<and> snd (process_file (fst (process_file fs spec)) spec)
       \<in> {Not_found, Already_present, No_changes}"
proof -
  obtain filename source ty where spec: "spec = (filename, source, ty)"
    by (cases spec)
  show ?thesis
  proof (cases "fs filename")
    case None
    then show ?thesis by (simp add: spec process_file_def)
  next
    case (Some content)
    show ?thesis
    proof (cases "substr_in (marker source) content")
      case True
      with Some show ?thesis by (simp add: spec process_file_def)
    next
      case False
      let ?u = "pass_B source ty (pass_A source ty content)"
      show ?thesis
      proof (cases "?u = content")
        case True
        with Some False show ?thesis by (simp add: spec process_file_def Let_def)
      next
        case neq: False
        with passes_same_or_marker [of source ty content]
        have "substr_in (marker source) ?u" by simp
        with Some False neq show ?thesis by (simp add: spec process_file_def Let_def)
      qed
    qed
  qed
qed

text \<open>
  C6.  A file whose text already contains the marker \<open>source: '<source-name>'\<close>
  is skipped before any substitution: the file system is unchanged and the
  skip is reported.
\<close>

theorem marker_present_unchanged:
  assumes "fs filename = Some content" and "substr_in (marker source) content"
  shows "process_file fs (filename, source, source_type) = (fs, Already_present)"
  using assms by (simp add: process_file_def)

theorem marker_present_unchanged_witness:
  "process_file
     [''analyzers/seo-analyzer.js'' \<mapsto> ''{ priority: \"high\", source: '' @ quoted ''seo-analyzer'' @ '' }'']
     (''analyzers/seo-analyzer.js'', ''seo-analyzer'', ''technical'')
   = ([''analyzers/seo-analyzer.js'' \<mapsto> ''{ priority: \"high\", source: '' @ quoted ''seo-analyzer'' @ '' }''],
      Already_present)"
proof -
  let ?c = "''{ priority: \"high\", source: '' @ quoted ''seo-analyzer'' @ '' }''"
  let ?fs = "[''analyzers/seo-analyzer.js'' \<mapsto> ?c]"
  have m: "substr_in (marker ''seo-analyzer'') ?c"
    by code_simp
  have f: "?fs ''analyzers/seo-analyzer.js'' = Some ?c"
    by simp
  show ?thesis
    by (rule marker_present_unchanged [of ?fs _ ?c, OF f m])
qed

text \<open>
  C7, as stated, fails: the template indents the two new lines by six
  spaces, not by two, whatever the indentation of the block.
\<close>

theorem pass_A_indentation_counterexample:
  "pass_A ''seo-analyzer'' ''technical'' (''priority: '' @ quoted ''critical'' @ ''\<newline>}'')
   \<noteq> ''priority: '' @ quoted ''critical'' @ '',\<newline>  source: '' @ quoted ''seo-analyzer''
       @ '',\<newline>  source_type: '' @ quoted ''technical'' @ ''\<newline>}''"
  by code_simp

lemma spaces_then_brace:
  "\<forall>c\<in>set ws. is_space c \<Longrightarrow> match_close (ws @ ''}'' @ rest) = Some rest"
  by (simp add: match_close_def spaces_def one_of_def dropWhile_append2 is_space_def)

lemma match_A_priority:
  assumes "\<forall>c\<in>set ws. is_space c"
  shows "match_A (''priority: '' @ quoted ''critical'' @ ws @ ''}'' @ rest)
         = Some (ws @ ''}'' @ rest, rest)"
  using spaces_then_brace [OF assms, of rest]
  by (simp add: match_A_def match_lit_def one_of_def spaces_def is_space_def is_quote_def
      level_def quoted_def)

subsection \<open>Pass A on a text that contains the block\<close>

lemma prefix_before_p:
  "CHR ''p'' \<notin> set l \<Longrightarrow> prefix l (x @ CHR ''p'' # y) \<longleftrightarrow> prefix l x"
proof (induction l arbitrary: x)
  case Nil
  then show ?case by simp
next
  case (Cons a l)
  then show ?case by (cases x) auto
qed

lemma prefix_length_diff: "prefix l x \<Longrightarrow> length l - length x = 0"
  by (simp add: prefix_length_le)

lemma match_lit_local:
  "CHR ''p'' \<notin> set l \<Longrightarrow>
   match_lit l (x @ CHR ''p'' # y) = map_option (\<lambda>r. r @ CHR ''p'' # y) (match_lit l x)"
  by (simp add: match_lit_def prefix_before_p prefix_length_diff)

lemma match_lit_priority_local:
  "x \<noteq> [] \<Longrightarrow>
   match_lit ''priority:'' (x @ CHR ''p'' # y)
     = map_option (\<lambda>r. r @ CHR ''p'' # y) (match_lit ''priority:'' x)"
proof (cases x)
  case Nil
  assume "x \<noteq> []"
  with Nil show ?thesis by simp
next
  case (Cons b x')
  have "CHR ''p'' \<notin> set ''riority:''" by simp
  from match_lit_local [OF this, of x' y] show ?thesis
    by (auto simp: match_lit_def Cons split: if_splits)
qed

lemma one_of_local:
  "\<not> P (CHR ''p'') \<Longrightarrow>
   one_of P (x @ CHR ''p'' # y) = map_option (\<lambda>r. r @ CHR ''p'' # y) (one_of P x)"
  by (cases x) (simp_all add: one_of_def)

lemma spaces_local: "spaces (x @ CHR ''p'' # y) = spaces x @ CHR ''p'' # y"
  by (induction x) (simp_all add: spaces_def is_space_def)

lemma level_local:
  "level (x @ CHR ''p'' # y) = map_option (\<lambda>r. r @ CHR ''p'' # y) (level x)"
  by (simp add: level_def match_lit_local split: option.splits)

lemma match_close_local:
  "match_close (x @ CHR ''p'' # y) = map_option (\<lambda>r. r @ CHR ''p'' # y) (match_close x)"
  by (simp add: match_close_def spaces_local one_of_local)

lemma match_A_local:
  assumes "x \<noteq> []"
  shows "match_A (x @ CHR ''p'' # y)
     = map_option (\<lambda>(r1, rest). (r1 @ CHR ''p'' # y, rest @ CHR ''p'' # y)) (match_A x)"
  unfolding match_A_def match_lit_priority_local [OF assms]
  by (auto simp: spaces_local one_of_local level_local match_close_local is_quote_def
      split: Option.bind_splits)


lemma match_lit_length: "match_lit l s = Some r \<Longrightarrow> length r \<le> length s"
  by (auto simp: match_lit_def split: if_splits)

lemma one_of_length: "one_of P s = Some r \<Longrightarrow> length r < length s"
  by (auto simp: one_of_def split: list.splits if_splits)

lemma spaces_length: "length (spaces s) \<le> length s"
  by (simp add: spaces_def length_dropWhile_le)

lemma level_length: "level s = Some r \<Longrightarrow> length r \<le> length s"
  by (auto simp: level_def split: option.splits dest: match_lit_length)

lemma match_close_length: "match_close s = Some r \<Longrightarrow> length r < length s"
  using one_of_length [of "\<lambda>c. c = CHR ''}''" "spaces s" r] spaces_length [of s]
  by (simp add: match_close_def)

lemma match_A_length:
  assumes "match_A s = Some (r1, rest)"
  shows "length rest < length r1 \<and> length r1 \<le> length s"
proof -
  from assms obtain s1 s2 s3 where
    1: "match_lit ''priority:'' s = Some s1" and
    2: "one_of is_quote (spaces s1) = Some s2" and
    3: "level s2 = Some s3" and
    4: "one_of is_quote s3 = Some r1" and
    5: "match_close r1 = Some rest"
    by (auto simp: match_A_def split: Option.bind_splits)
  from match_lit_length [OF 1] one_of_length [OF 2] spaces_length [of s1]
    level_length [OF 3] one_of_length [OF 4] match_close_length [OF 5]
  show ?thesis by simp
qed

lemma match_at_A_bounds:
  "match_at Pass_A s = Some (n1, n2) \<Longrightarrow> 0 < n2 \<and> n1 + n2 \<le> length s"
  by (auto simp: match_at_def split: option.splits dest: match_A_length)

lemma match_at_A_local:
  "x \<noteq> [] \<Longrightarrow> match_at Pass_A (x @ CHR ''p'' # y) = match_at Pass_A x"
  by (auto simp: match_at_def match_A_local split: option.splits)

text \<open>
  No match of Pass A that begins before a \<open>p\<close> reaches it, so the pass treats
  the text before a \<open>p\<close> and the text from it on separately.
\<close>

lemma re_sub_A_append:
  "re_sub Pass_A ins (x @ CHR ''p'' # y)
     = re_sub Pass_A ins x @ re_sub Pass_A ins (CHR ''p'' # y)"
proof (induction x rule: length_induct)
  case (1 x)
  show ?case
  proof (cases x)
    case Nil
    then show ?thesis by simp
  next
    case (Cons c cs)
    have loc: "match_at Pass_A (c # cs @ CHR ''p'' # y) = match_at Pass_A (c # cs)"
      using match_at_A_local [of "c # cs" y] by simp
    show ?thesis
    proof (cases "match_at Pass_A (c # cs)")
      case None
      have "length cs < length x" using Cons by simp
      with 1 have "re_sub Pass_A ins (cs @ CHR ''p'' # y)
          = re_sub Pass_A ins cs @ re_sub Pass_A ins (CHR ''p'' # y)" by blast
      with None loc show ?thesis by (simp add: Cons del: re_sub.simps(2)) (simp add: None loc)
    next
      case (Some a)
      obtain n1 n2 where a: "a = (n1, n2)" by (cases a)
      from match_at_A_bounds [of "c # cs" n1 n2] Some a
      have b: "0 < n2" "n1 + n2 \<le> Suc (length cs)" by simp_all
      let ?d = "drop (n1 + n2 - 1) cs"
      have "length ?d < length x" using Cons by simp
      with 1 have ih: "re_sub Pass_A ins (?d @ CHR ''p'' # y)
          = re_sub Pass_A ins ?d @ re_sub Pass_A ins (CHR ''p'' # y)" by blast
      have d: "drop (n1 + n2 - 1) (cs @ CHR ''p'' # y) = ?d @ CHR ''p'' # y"
        using b by simp
      have t1: "take n1 (c # cs @ CHR ''p'' # y) = take n1 (c # cs)"
        using b by (simp add: take_Cons' )
      have t2: "take n2 (drop n1 (c # cs @ CHR ''p'' # y)) = take n2 (drop n1 (c # cs))"
        using b take_append [of n2 "drop n1 (c # cs)" "CHR ''p'' # y"]
          drop_append [of n1 "c # cs" "CHR ''p'' # y"] by simp
      have "re_sub Pass_A ins (c # cs @ CHR ''p'' # y)
          = take n1 (c # cs @ CHR ''p'' # y) @ ins @ take n2 (drop n1 (c # cs @ CHR ''p'' # y))
            @ re_sub Pass_A ins (drop (n1 + n2 - 1) (cs @ CHR ''p'' # y))"
        using loc Some a by simp
      also have "\<dots> = take n1 (c # cs) @ ins @ take n2 (drop n1 (c # cs))
            @ re_sub Pass_A ins ?d @ re_sub Pass_A ins (CHR ''p'' # y)"
        by (simp only: t1 t2 d ih)
      also have "\<dots> = re_sub Pass_A ins (c # cs) @ re_sub Pass_A ins (CHR ''p'' # y)"
        using Some a by simp
      finally show ?thesis by (simp add: Cons)
    qed
  qed
qed

lemma drop_length_append: "drop (length xs) (xs @ ys) = ys"
  by simp

text \<open>
  C7 (amended).  In any text that contains \<open>priority: 'critical'\<close>, whitespace
  \<open>ws\<close> (a newline in the claim) and a closing brace, Pass A rewrites that
  block to \<open>priority: 'critical',\<close>, then the line of six spaces and
  \<open>source: 'X',\<close>, then the line of six spaces and \<open>source_type: 'Y'\<close>, then
  \<open>ws\<close> and the closing brace: the whitespace before the brace is kept, the
  indentation of the two new lines is fixed.  The text before the block and
  the text behind it are rewritten on their own.
\<close>

theorem pass_A_priority_block:
  assumes "\<forall>c\<in>set ws. is_space c"
  shows "pass_A source source_type
           (pre @ ''priority: '' @ quoted ''critical'' @ ws @ ''}'' @ post)
   = pass_A source source_type pre
       @ ''priority: '' @ quoted ''critical'' @ '',\<newline>      source: '' @ quoted source
       @ '',\<newline>      source_type: '' @ quoted source_type @ ws @ ''}''
       @ pass_A source source_type post"
proof -
  let ?ins = "insertion source source_type"
  let ?tl = "''riority: '' @ quoted ''critical'' @ ws @ ''}'' @ post"
  have blk: "''priority: '' @ quoted ''critical'' @ ws @ ''}'' @ post = CHR ''p'' # ?tl"
    by simp
  have m: "match_at Pass_A (CHR ''p'' # ?tl) = Some (20, length ws + 1)"
    using match_A_priority [OF assms, of post] by (simp add: match_at_def quoted_def)
  have d: "drop (20 + length ws) ?tl = post"
  proof -
    let ?b = "''riority: '' @ quoted ''critical'' @ ws @ ''}''"
    have "drop (length ?b) (?b @ post) = post"
      by (rule drop_length_append)
    moreover have "length ?b = 20 + length ws"
      by (simp add: quoted_def)
    ultimately show ?thesis
      by (simp only: append_assoc)
  qed
  have "re_sub Pass_A ?ins (CHR ''p'' # ?tl)
      = ''priority: '' @ quoted ''critical'' @ ?ins @ ws @ ''}'' @ re_sub Pass_A ?ins post"
    using m d by (simp add: quoted_def)
  then have "re_sub Pass_A ?ins (pre @ CHR ''p'' # ?tl)
      = re_sub Pass_A ?ins pre
        @ ''priority: '' @ quoted ''critical'' @ ?ins @ ws @ ''}'' @ re_sub Pass_A ?ins post"
    by (simp only: re_sub_A_append)
  then show ?thesis
    unfolding pass_A_def blk by (simp add: insertion_def)
qed

theorem pass_A_priority_block_witness:
  "pass_A ''seo-analyzer'' ''technical''
     (''issues.push({\<newline>  '' @ ''priority: '' @ quoted ''critical'' @ ''\<newline>'' @ ''}'' @ '');\<newline>'')
   = ''issues.push({\<newline>  '' @ ''priority: '' @ quoted ''critical''
       @ '',\<newline>      source: '' @ quoted ''seo-analyzer''
       @ '',\<newline>      source_type: '' @ quoted ''technical'' @ ''\<newline>'' @ ''}'' @ '');\<newline>''"
proof -
  have w: "\<forall>c\<in>set ''\<newline>''. is_space c"
    by (simp add: is_space_def)
  have a: "pass_A ''seo-analyzer'' ''technical'' ''issues.push({\<newline>  '' = ''issues.push({\<newline>  ''"
    by code_simp
  have b: "pass_A ''seo-analyzer'' ''technical'' '');\<newline>'' = '');\<newline>''"
    by code_simp
  from pass_A_priority_block [OF w, of "''seo-analyzer''" "''technical''"
      "''issues.push({\<newline>  ''" "'');\<newline>''"]
  show ?thesis
    by (simp only: a b)
qed

end
